theory Spec2Isabelle
  imports Complex_Main "HOL-Library.Log_Nat" "HOL-Library.AList"
begin

section \<open>The rational primitive and JavaScript numbers\<close>

text \<open>
  The classes \<open>Harmonic\<close>, \<open>Spectrum\<close> and \<open>IntervalSet\<close> are built on the
  \<open>Fraction\<close> type of the library fraction.js, an exact fraction kept in lowest terms.
  A \<open>Fraction\<close> is embedded as a \<^typ>\<open>rat\<close>; an argument of type \<open>FractionInput\<close> is
  embedded as the fraction it parses to.

  A JavaScript \<open>number\<close> is an IEEE-754 binary64 value. A finite number is embedded as the
  rational it denotes, and the result of every floating-point operation is rounded to the
  nearest binary64 value (ties to even, 53-bit significand) by \<open>round64\<close>. The exponent
  range is not bounded and \<open>NaN\<close>, the infinities and the sign of zero are not represented:
  the embedding agrees with the program as long as no magnitude leaves the binary64 range,
  which holds in particular for the conversion of a fraction whose numerator and denominator
  are at most \<open>2^53\<close> (predicate \<open>safe\<close>).
\<close>

type_synonym Fraction = rat
type_synonym number = rat

datatype error =
    FrequencyMustBePositive
  | AmplitudeOutOfRange
  | PhaseOutOfRange
  | RatioMustBeGreaterThanZero
  | MinGreaterThanMax
  | MaxDenominatorTooSmall
  | MaxGapCentsMustBePositive
  | DivisionByZero

text \<open>A mutating method that may throw returns the thrown error, if any, together with
  the state of the receiver after the call.\<close>

type_synonym 's outcome = "error option \<times> 's"

subsection \<open>Rounding to binary64\<close>

definition roundHalfEven :: "rat \<Rightarrow> int" where
  "roundHalfEven x =
     (let f = \<lfloor>x\<rfloor>; r = x - of_int f
      in if r < 1 / 2 then f else if 1 / 2 < r then f + 1 else if even f then f else f + 1)"

text \<open>\<open>ilog2 x\<close> is the exponent \<open>k\<close> with \<open>2^k \<le> x < 2^(k+1)\<close>, for positive \<open>x\<close>.\<close>

definition ilog2 :: "rat \<Rightarrow> int" where
  "ilog2 x =
     (case quotient_of x of (n, d) \<Rightarrow>
        let k = bitlen n - bitlen d in if 2 powi k \<le> x then k else k - 1)"

definition round64 :: "rat \<Rightarrow> number" where
  "round64 x =
     (if x = 0 then 0
      else let u = 2 powi (ilog2 \<bar>x\<bar> - 52) in of_int (roundHalfEven (x / u)) * u)"

text \<open>The product of two numbers, \<open>a * b\<close> in the source.\<close>

definition fmul :: "number \<Rightarrow> number \<Rightarrow> number" where
  "fmul a b = round64 (a * b)"


text \<open>\<open>Math.PI\<close>, the binary64 value nearest to \<open>\<pi>\<close>.\<close>

definition Math_PI :: number where
  "Math_PI = 884279719003555 / 281474976710656"

subsection \<open>Operations of \<open>Fraction\<close> used by the classes\<close>

text \<open>\<open>valueOf\<close> converts numerator and denominator to numbers and divides them
  (\<open>Number(s * n) / Number(d)\<close> in fraction.js). A fraction is \<open>safe\<close> when both
  conversions are exact.\<close>

definition valueOf :: "Fraction \<Rightarrow> number" where
  "valueOf q =
     (case quotient_of q of (n, d) \<Rightarrow> round64 (round64 (of_int n) / round64 (of_int d)))"

definition safe :: "Fraction \<Rightarrow> bool" where
  "safe q = (case quotient_of q of (n, d) \<Rightarrow> \<bar>n\<bar> \<le> 2 ^ 53 \<and> d \<le> 2 ^ 53)"

text \<open>\<open>div\<close> throws on a zero divisor.\<close>

definition Fraction_div :: "Fraction \<Rightarrow> Fraction \<Rightarrow> error + Fraction" where
  "Fraction_div a b = (if b = 0 then Inl DivisionByZero else Inr (a / b))"

text \<open>\<open>toFraction\<close> renders the reduced fraction as \<open>n/d\<close>, or as \<open>n\<close> when the
  denominator is one. It is the key under which the containers store an entry.\<close>

definition digitChar :: "nat \<Rightarrow> char" where
  "digitChar n = char_of (48 + n)"

fun decimal :: "nat \<Rightarrow> string" where
  "decimal n = (if n < 10 then [digitChar n] else decimal (n div 10) @ [digitChar (n mod 10)])"

declare decimal.simps [simp del]

definition toFraction :: "Fraction \<Rightarrow> string" where
  "toFraction q =
     (case quotient_of q of (n, d) \<Rightarrow>
        (if n < 0 then ''-'' else '''') @ decimal (nat \<bar>n\<bar>) @
        (if d = 1 then '''' else ''/'' @ decimal (nat d)))"

text \<open>The part of a rendered fraction before the slash, and the part from the slash on.\<close>

definition numeratorPart :: "int \<Rightarrow> string" where
  "numeratorPart n = (if n < 0 then ''-'' else '''') @ decimal (nat \<bar>n\<bar>)"

definition denominatorPart :: "int \<Rightarrow> string" where
  "denominatorPart d = (if d = 1 then '''' else ''/'' @ decimal (nat d))"

section \<open>The JavaScript \<open>Map\<close>\<close>

text \<open>
  A \<open>Map\<close> keeps its entries in insertion order: \<open>set\<close> on a key already present
  replaces the value in place, \<open>set\<close> on a new key appends, \<open>delete\<close> removes the entry.
  It is embedded as an association list.
\<close>

type_synonym ('k, 'v) Map = "('k \<times> 'v) list"

primrec Map_set :: "'k \<Rightarrow> 'v \<Rightarrow> ('k, 'v) Map \<Rightarrow> ('k, 'v) Map" where
  "Map_set k v [] = [(k, v)]"
| "Map_set k v (p # ps) = (if fst p = k then (k, v) # ps else p # Map_set k v ps)"

definition Map_delete :: "'k \<Rightarrow> ('k, 'v) Map \<Rightarrow> ('k, 'v) Map" where
  "Map_delete k m = filter (\<lambda>p. fst p \<noteq> k) m"

definition Map_get :: "'k \<Rightarrow> ('k, 'v) Map \<Rightarrow> 'v option" where
  "Map_get k m = map_of m k"

definition Map_has :: "'k \<Rightarrow> ('k, 'v) Map \<Rightarrow> bool" where
  "Map_has k m = (map_of m k \<noteq> None)"

definition Map_keys :: "('k, 'v) Map \<Rightarrow> 'k list" where
  "Map_keys m = map fst m"

definition Map_values :: "('k, 'v) Map \<Rightarrow> 'v list" where
  "Map_values m = map snd m"

definition Map_size :: "('k, 'v) Map \<Rightarrow> nat" where
  "Map_size m = length m"

section \<open>Harmonic\<close>

record Harmonic =
  frequency :: Fraction
  amplitude :: number
  phase :: number

definition frequencyStr :: "Harmonic \<Rightarrow> string" where
  "frequencyStr h = toFraction (frequency h)"

text \<open>The private method \<open>validate\<close>: the first failing check throws.\<close>

definition validate :: "Harmonic \<Rightarrow> error option" where
  "validate h =
     (if frequency h \<le> 0 then Some FrequencyMustBePositive
      else if amplitude h < 0 \<or> amplitude h > 1 then Some AmplitudeOutOfRange
      else if phase h < 0 \<or> phase h \<ge> 2 * Math_PI then Some PhaseOutOfRange
      else None)"

text \<open>The constructor, called with a frequency, an amplitude and a phase (the defaults
  \<open>1\<close> and \<open>0\<close> are supplied by the caller). The overload that takes a serialized
  record builds the same three fields from the record and is not embedded.\<close>

definition new_Harmonic :: "Fraction \<Rightarrow> number \<Rightarrow> number \<Rightarrow> error + Harmonic" where
  "new_Harmonic f a p =
     (let h = \<lparr>frequency = f, amplitude = a, phase = p\<rparr>
      in case validate h of Some e \<Rightarrow> Inl e | None \<Rightarrow> Inr h)"

text \<open>\<open>setFrequency\<close> assigns the field and checks afterwards; \<open>setAmplitude\<close> and
  \<open>setPhase\<close> check before they assign.\<close>

definition setFrequency :: "Fraction \<Rightarrow> Harmonic \<Rightarrow> Harmonic outcome" where
  "setFrequency f h =
     (let h' = h\<lparr>frequency := f\<rparr>
      in if frequency h' \<le> 0 then (Some FrequencyMustBePositive, h') else (None, h'))"

definition setAmplitude :: "number \<Rightarrow> Harmonic \<Rightarrow> Harmonic outcome" where
  "setAmplitude a h =
     (if a < 0 \<or> a > 1 then (Some AmplitudeOutOfRange, h) else (None, h\<lparr>amplitude := a\<rparr>))"

definition setPhase :: "number \<Rightarrow> Harmonic \<Rightarrow> Harmonic outcome" where
  "setPhase p h =
     (if p < 0 \<or> p \<ge> 2 * Math_PI then (Some PhaseOutOfRange, h) else (None, h\<lparr>phase := p\<rparr>))"

definition Harmonic_transpose :: "Fraction \<Rightarrow> Harmonic \<Rightarrow> Harmonic" where
  "Harmonic_transpose ratio h = h\<lparr>frequency := frequency h * ratio\<rparr>"

definition Harmonic_scale :: "number \<Rightarrow> Harmonic \<Rightarrow> Harmonic" where
  "Harmonic_scale factor h = h\<lparr>amplitude := max 0 (min 1 (fmul (amplitude h) factor))\<rparr>"

definition Harmonic_clone :: "Harmonic \<Rightarrow> error + Harmonic" where
  "Harmonic_clone h = new_Harmonic (frequency h) (amplitude h) (phase h)"

definition Harmonic_toTransposed :: "Fraction \<Rightarrow> Harmonic \<Rightarrow> error + Harmonic" where
  "Harmonic_toTransposed ratio h =
     (case Harmonic_clone h of Inl e \<Rightarrow> Inl e | Inr c \<Rightarrow> Inr (Harmonic_transpose ratio c))"

text \<open>The invariants of the data model. The bound on the phase is the number
  \<open>2 * Math.PI\<close> that the source compares with.\<close>

definition valid :: "Harmonic \<Rightarrow> bool" where
  "valid h \<longleftrightarrow>
     0 < frequency h \<and> 0 \<le> amplitude h \<and> amplitude h \<le> 1 \<and> 0 \<le> phase h \<and> phase h < 2 * Math_PI"

section \<open>Spectrum\<close>

type_synonym Spectrum = "(string, Harmonic) Map"

text \<open>The argument of \<open>get\<close>, \<open>has\<close>, \<open>remove\<close>, \<open>add\<close> and \<open>transposeHarmonic\<close> is
  a \<open>Harmonic\<close> or a frequency.\<close>

datatype HarmonicOrFrequency = AsHarmonic Harmonic | AsFrequency Fraction

definition addHarmonic :: "Harmonic \<Rightarrow> Spectrum \<Rightarrow> Spectrum" where
  "addHarmonic harmonic s = (let key = frequencyStr harmonic in Map_set key harmonic s)"

text \<open>\<open>add\<close> with a \<open>Harmonic\<close>, or with a frequency and an optional amplitude and phase.\<close>

fun Spectrum_add ::
  "HarmonicOrFrequency \<Rightarrow> number option \<Rightarrow> number option \<Rightarrow> Spectrum \<Rightarrow> Spectrum outcome" where
  "Spectrum_add (AsHarmonic h) a p s = (None, addHarmonic h s)"
| "Spectrum_add (AsFrequency f) a p s =
     (case new_Harmonic f (case a of None \<Rightarrow> 1 | Some x \<Rightarrow> x) (case p of None \<Rightarrow> 0 | Some x \<Rightarrow> x) of
        Inl e \<Rightarrow> (Some e, s)
      | Inr h \<Rightarrow> (None, addHarmonic h s))"

fun Spectrum_get :: "HarmonicOrFrequency \<Rightarrow> Spectrum \<Rightarrow> Harmonic option" where
  "Spectrum_get (AsHarmonic h) s = (let key = frequencyStr h in Map_get key s)"
| "Spectrum_get (AsFrequency f) s = (let key = toFraction f in Map_get key s)"

fun Spectrum_has :: "HarmonicOrFrequency \<Rightarrow> Spectrum \<Rightarrow> bool" where
  "Spectrum_has (AsHarmonic h) s = (let key = frequencyStr h in Map_has key s)"
| "Spectrum_has (AsFrequency f) s = (let key = toFraction f in Map_has key s)"

fun Spectrum_remove :: "HarmonicOrFrequency \<Rightarrow> Spectrum \<Rightarrow> Spectrum" where
  "Spectrum_remove (AsHarmonic h) s = (let key = frequencyStr h in Map_delete key s)"
| "Spectrum_remove (AsFrequency f) s = (let key = toFraction f in Map_delete key s)"

text \<open>
  \<open>get\<close> returns the stored object itself, and the setters, \<open>transpose\<close> and \<open>scale\<close>
  of \<open>Harmonic\<close> change their receiver in place. So \<open>s.get(x).transpose(r)\<close> changes the
  harmonic inside the spectrum and leaves it under the key it had. \<open>mutateStored x f s\<close> is
  the spectrum after \<open>s.get(x)\<close> followed by the mutator \<open>f\<close> on the object returned, and
  \<open>None\<close> when \<open>get\<close> returns \<open>undefined\<close>.
\<close>

fun mutateStored :: "HarmonicOrFrequency \<Rightarrow> (Harmonic \<Rightarrow> Harmonic) \<Rightarrow> Spectrum \<Rightarrow> Spectrum option" where
  "mutateStored (AsHarmonic h) f s =
     (let key = frequencyStr h
      in case Map_get key s of None \<Rightarrow> None | Some stored \<Rightarrow> Some (Map_set key (f stored) s))"
| "mutateStored (AsFrequency q) f s =
     (let key = toFraction q
      in case Map_get key s of None \<Rightarrow> None | Some stored \<Rightarrow> Some (Map_set key (f stored) s))"

text \<open>\<open>getHarmonics\<close> sorts the values by frequency; the sort is stable.\<close>

definition getHarmonics :: "Spectrum \<Rightarrow> Harmonic list" where
  "getHarmonics s = sort_key frequency (Map_values s)"

definition transposeHarmonic :: "HarmonicOrFrequency \<Rightarrow> Fraction \<Rightarrow> Spectrum \<Rightarrow> Spectrum outcome" where
  "transposeHarmonic x ratio s =
     (case Spectrum_get x s of
        None \<Rightarrow> (None, s)
      | Some oldHarmonic \<Rightarrow>
          (let oldKey = frequencyStr oldHarmonic
           in (case Harmonic_toTransposed ratio oldHarmonic of
                 Inl e \<Rightarrow> (Some e, s)
               | Inr newHarmonic \<Rightarrow>
                   (let newKey = frequencyStr newHarmonic
                    in if oldKey = newKey then (None, s)
                       else (None, Map_set newKey newHarmonic (Map_delete oldKey s))))))"

text \<open>The two loops of \<open>transpose\<close> call \<open>transposeHarmonic\<close> on each element of the
  sorted snapshot, last to first or first to last; an exception ends the loop.\<close>

fun transposeEach :: "Fraction \<Rightarrow> Harmonic list \<Rightarrow> Spectrum \<Rightarrow> Spectrum outcome" where
  "transposeEach r [] s = (None, s)"
| "transposeEach r (h # hs) s =
     (case transposeHarmonic (AsHarmonic h) r s of
        (Some e, s') \<Rightarrow> (Some e, s')
      | (None, s') \<Rightarrow> transposeEach r hs s')"

definition Spectrum_transpose :: "Fraction \<Rightarrow> Spectrum \<Rightarrow> Spectrum outcome" where
  "Spectrum_transpose r s =
     (let ratioValue = valueOf r
      in if ratioValue = 1 then (None, s)
         else if ratioValue \<le> 0 then (Some RatioMustBeGreaterThanZero, s)
         else let allHarmonics = getHarmonics s
              in if ratioValue > 1 then transposeEach r (rev allHarmonics) s
                 else transposeEach r allHarmonics s)"

fun cloneInto :: "Harmonic list \<Rightarrow> Spectrum \<Rightarrow> error + Spectrum" where
  "cloneInto [] copy = Inr copy"
| "cloneInto (harmonic # hs) copy =
     (case Harmonic_clone harmonic of
        Inl e \<Rightarrow> Inl e
      | Inr c \<Rightarrow> cloneInto hs (addHarmonic c copy))"

definition Spectrum_clone :: "Spectrum \<Rightarrow> error + Spectrum" where
  "Spectrum_clone s = cloneInto (Map_values s) []"

text \<open>
  Each entry of a spectrum is stored under the key of its own frequency, and a \<open>Map\<close> has
  one entry per key. A spectrum is well formed when, in addition, its harmonics satisfy
  the invariants of \<open>Harmonic\<close>.
\<close>

definition consistent :: "Spectrum \<Rightarrow> bool" where
  "consistent s \<longleftrightarrow> distinct (map fst s) \<and> list_all (\<lambda>(k, h). k = frequencyStr h) s"

definition wellFormed :: "Spectrum \<Rightarrow> bool" where
  "wellFormed s \<longleftrightarrow> consistent s \<and> list_all (\<lambda>(k, h). valid h) s"

text \<open>The entry under which a harmonic is stored.\<close>

definition entryOf :: "Harmonic \<Rightarrow> string \<times> Harmonic" where
  "entryOf h = (frequencyStr h, h)"

section \<open>IntervalSet\<close>

type_synonym IntervalSet = "(string, Fraction) Map"

definition IntervalSet_add :: "Fraction \<Rightarrow> IntervalSet \<Rightarrow> IntervalSet" where
  "IntervalSet_add ratio m = (let f = ratio in Map_set (toFraction f) f m)"

fun addEach :: "Fraction list \<Rightarrow> IntervalSet \<Rightarrow> IntervalSet" where
  "addEach [] m = m"
| "addEach (r # rs) m = addEach rs (IntervalSet_add r m)"

definition new_IntervalSet :: "Fraction list \<Rightarrow> IntervalSet" where
  "new_IntervalSet ratios = addEach ratios []"

definition IntervalSet_has :: "Fraction \<Rightarrow> IntervalSet \<Rightarrow> bool" where
  "IntervalSet_has ratio m = (let key = toFraction ratio in Map_has key m)"

definition IntervalSet_delete :: "Fraction \<Rightarrow> IntervalSet \<Rightarrow> IntervalSet" where
  "IntervalSet_delete ratio m = (let key = toFraction ratio in Map_delete key m)"

definition getRatios :: "IntervalSet \<Rightarrow> Fraction list" where
  "getRatios m = sort_key (\<lambda>x. x) (Map_values m)"

definition toStrings :: "IntervalSet \<Rightarrow> string list" where
  "toStrings m = map toFraction (getRatios m)"

text \<open>The loop of \<open>toSweepIntervals\<close>, from index \<open>i\<close> on.\<close>

function sweepLoop :: "Fraction list \<Rightarrow> nat \<Rightarrow> Fraction list \<Rightarrow> error + Fraction list" where
  "sweepLoop ratios i intervals =
     (if i < length ratios then
        (case Fraction_div (ratios ! i) (ratios ! (i - 1)) of
           Inl e \<Rightarrow> Inl e
         | Inr q \<Rightarrow> sweepLoop ratios (i + 1) (intervals @ [q]))
      else Inr intervals)"
  by pat_completeness auto
termination
  by (relation "measure (\<lambda>(ratios, i, intervals). length ratios - i)") auto

declare sweepLoop.simps [simp del]

definition toSweepIntervals :: "IntervalSet \<Rightarrow> error + Fraction list" where
  "toSweepIntervals m =
     (let ratios = getRatios m
      in if length ratios = 0 then Inr [] else sweepLoop ratios 1 [1])"

text \<open>The inner loop of \<open>range\<close>, over the numerators from \<open>numerator\<close> to
  \<open>maxNumerator\<close>, and the outer loop, over the denominators from \<open>denominator\<close> to
  \<open>maxDenominator\<close>.\<close>

function numeratorLoop ::
  "Fraction \<Rightarrow> Fraction \<Rightarrow> int \<Rightarrow> int \<Rightarrow> int \<Rightarrow> IntervalSet \<Rightarrow> IntervalSet" where
  "numeratorLoop minFraction maxFraction denominator maxNumerator numerator m =
     (if numerator \<le> maxNumerator then
        (let fraction = of_int numerator / of_int denominator
         in numeratorLoop minFraction maxFraction denominator maxNumerator (numerator + 1)
              (if fraction \<ge> minFraction \<and> fraction \<le> maxFraction
               then IntervalSet_add fraction m else m))
      else m)"
  by pat_completeness auto
termination
  by (relation "measure (\<lambda>(mn, mx, d, maxN, n, m). nat (maxN + 1 - n))") auto

declare numeratorLoop.simps [simp del]

function denominatorLoop ::
  "Fraction \<Rightarrow> Fraction \<Rightarrow> int \<Rightarrow> int \<Rightarrow> IntervalSet \<Rightarrow> IntervalSet" where
  "denominatorLoop minFraction maxFraction maxDenominator denominator m =
     (if denominator \<le> maxDenominator then
        (let minNumerator = max 1 \<lceil>fmul (valueOf minFraction) (of_int denominator)\<rceil>;
             maxNumerator = \<lfloor>fmul (valueOf maxFraction) (of_int denominator)\<rfloor>
         in denominatorLoop minFraction maxFraction maxDenominator (denominator + 1)
              (numeratorLoop minFraction maxFraction denominator maxNumerator minNumerator m))
      else m)"
  by pat_completeness auto
termination
  by (relation "measure (\<lambda>(mn, mx, maxD, d, m). nat (maxD + 1 - d))") auto

declare denominatorLoop.simps [simp del]

definition IntervalSet_range :: "Fraction \<Rightarrow> Fraction \<Rightarrow> int \<Rightarrow> error + IntervalSet" where
  "IntervalSet_range minFraction maxFraction maxDenominator =
     (if maxDenominator < 1 then Inl MaxDenominatorTooSmall
      else if minFraction > maxFraction then Inl MinGreaterThanMax
      else Inr (denominatorLoop minFraction maxFraction maxDenominator 1 []))"





text \<open>The adjacent pairs of a sorted sequence that \<open>densify\<close> leaves alone: the divisor is
  not zero and the number of the quotient is at most the threshold.\<close>

fun gapsWithin :: "number \<Rightarrow> Fraction list \<Rightarrow> bool" where
  "gapsWithin maxGapRatio (left # right # rest) \<longleftrightarrow>
     left \<noteq> 0 \<and> valueOf (right / left) \<le> maxGapRatio \<and> gapsWithin maxGapRatio (right # rest)"
| "gapsWithin maxGapRatio [left] \<longleftrightarrow> True"
| "gapsWithin maxGapRatio [] \<longleftrightarrow> True"

text \<open>
  The scan in the words of the specification: the adjacent pairs of the sorted sequence
  whose gap is above the threshold, and the insertion of the geometric mean of each pair.
\<close>

definition widePairs :: "number \<Rightarrow> Fraction list \<Rightarrow> (Fraction \<times> Fraction) list" where
  "widePairs maxGapRatio sortedRatios =
     filter (\<lambda>(left, right). valueOf (right / left) > maxGapRatio) (zip sortedRatios (tl sortedRatios))"






text \<open>Each ratio of an interval set is stored under its own key.\<close>

definition keyed :: "IntervalSet \<Rightarrow> bool" where
  "keyed m \<longleftrightarrow> distinct (map fst m) \<and> list_all (\<lambda>(k, v). k = toFraction v) m"

section \<open>The key of a fraction identifies it\<close>

lemma of_char_digitChar: "n < 10 \<Longrightarrow> of_char (digitChar n) = 48 + n"
  by (simp add: digitChar_def)

lemma digitChar_inj: "a < 10 \<Longrightarrow> b < 10 \<Longrightarrow> digitChar a = digitChar b \<Longrightarrow> a = b"
  by (metis add_left_cancel of_char_digitChar)

lemma digitChar_not_slash: "n < 10 \<Longrightarrow> digitChar n \<noteq> CHR ''/''"
proof
  assume "n < 10" and "digitChar n = CHR ''/''"
  then have "(of_char (digitChar n) :: nat) = of_char (CHR ''/'')" by simp
  with \<open>n < 10\<close> show False by (simp add: of_char_digitChar)
qed

lemma digitChar_not_minus: "n < 10 \<Longrightarrow> digitChar n \<noteq> CHR ''-''"
proof
  assume "n < 10" and "digitChar n = CHR ''-''"
  then have "(of_char (digitChar n) :: nat) = of_char (CHR ''-'')" by simp
  with \<open>n < 10\<close> show False by (simp add: of_char_digitChar)
qed

lemma decimal_digits: "c \<in> set (decimal n) \<Longrightarrow> \<exists>k<10. c = digitChar k"
proof (induction n rule: decimal.induct)
  case (1 n)
  show ?case
  proof (cases "n < 10")
    case True
    with "1.prems" show ?thesis by (auto simp: decimal.simps [of n])
  next
    case False
    with "1.prems" have "c \<in> set (decimal (n div 10)) \<or> c = digitChar (n mod 10)"
      by (auto simp: decimal.simps [of n])
    then show ?thesis
    proof
      assume "c \<in> set (decimal (n div 10))"
      with False "1.IH" show ?thesis by simp
    next
      assume "c = digitChar (n mod 10)"
      moreover have "n mod 10 < 10" by simp
      ultimately show ?thesis by blast
    qed
  qed
qed

lemma decimal_no_slash: "CHR ''/'' \<notin> set (decimal n)"
proof
  assume "CHR ''/'' \<in> set (decimal n)"
  then obtain k where "k < 10" "CHR ''/'' = digitChar k"
    using decimal_digits by blast
  then show False using digitChar_not_slash by metis
qed

lemma decimal_no_minus: "CHR ''-'' \<notin> set (decimal n)"
proof
  assume "CHR ''-'' \<in> set (decimal n)"
  then obtain k where "k < 10" "CHR ''-'' = digitChar k"
    using decimal_digits by blast
  then show False using digitChar_not_minus by metis
qed

lemma takeWhile_separator: "x \<notin> set xs \<Longrightarrow> takeWhile (\<lambda>c. c \<noteq> x) (xs @ x # ys) = xs"
  by (induction xs) auto

lemma dropWhile_separator: "x \<notin> set xs \<Longrightarrow> dropWhile (\<lambda>c. c \<noteq> x) (xs @ x # ys) = x # ys"
  by (induction xs) auto

lemma takeWhile_no_separator: "x \<notin> set xs \<Longrightarrow> takeWhile (\<lambda>c. c \<noteq> x) xs = xs"
  by (induction xs) auto

lemma dropWhile_no_separator: "x \<notin> set xs \<Longrightarrow> dropWhile (\<lambda>c. c \<noteq> x) xs = []"
  by (induction xs) auto

lemma decimal_nonempty: "decimal n \<noteq> []"
  by (subst decimal.simps) simp

lemma decimal_inj: "decimal n = decimal m \<Longrightarrow> n = m"
proof (induction n arbitrary: m rule: decimal.induct)
  case (1 n)
  show ?case
  proof (cases "n < 10")
    case n: True
    show ?thesis
    proof (cases "m < 10")
      case True
      with n "1.prems" show ?thesis
        by (simp add: decimal.simps [of n] decimal.simps [of m] digitChar_inj)
    next
      case False
      with n "1.prems" have "[digitChar n] = decimal (m div 10) @ [digitChar (m mod 10)]"
        by (simp add: decimal.simps [of n] decimal.simps [of m])
      then show ?thesis using decimal_nonempty [of "m div 10"] by simp
    qed
  next
    case n: False
    show ?thesis
    proof (cases "m < 10")
      case True
      with n "1.prems" have "decimal (n div 10) @ [digitChar (n mod 10)] = [digitChar m]"
        by (simp add: decimal.simps [of n] decimal.simps [of m])
      then show ?thesis using decimal_nonempty [of "n div 10"] by simp
    next
      case False
      with n "1.prems" have e: "decimal (n div 10) = decimal (m div 10)"
        and d: "digitChar (n mod 10) = digitChar (m mod 10)"
        by (simp_all add: decimal.simps [of n] decimal.simps [of m])
      from e n "1.IH" have "n div 10 = m div 10" by simp
      moreover from d have "n mod 10 = m mod 10" by (simp add: digitChar_inj)
      ultimately show ?thesis by (metis div_mult_mod_eq)
    qed
  qed
qed

lemma toFraction_parts:
  "toFraction q = numeratorPart (fst (quotient_of q)) @ denominatorPart (snd (quotient_of q))"
  by (simp add: toFraction_def numeratorPart_def denominatorPart_def split: prod.splits)

lemma numeratorPart_no_slash: "CHR ''/'' \<notin> set (numeratorPart n)"
  by (simp add: numeratorPart_def decimal_no_slash)

lemma takeWhile_parts:
  "takeWhile (\<lambda>c. c \<noteq> CHR ''/'') (numeratorPart n @ denominatorPart d) = numeratorPart n"
  using numeratorPart_no_slash [of n]
  by (simp add: denominatorPart_def takeWhile_separator takeWhile_no_separator)

lemma dropWhile_parts:
  "dropWhile (\<lambda>c. c \<noteq> CHR ''/'') (numeratorPart n @ denominatorPart d) = denominatorPart d"
  using numeratorPart_no_slash [of n]
  by (simp add: denominatorPart_def dropWhile_separator dropWhile_no_separator)

lemma numeratorPart_inj: "numeratorPart n = numeratorPart m \<Longrightarrow> n = m"
proof -
  assume e: "numeratorPart n = numeratorPart m"
  have hd_neg: "k < 0 \<Longrightarrow> hd (numeratorPart k) = CHR ''-''" for k
    by (simp add: numeratorPart_def)
  have hd_pos: "\<not> k < 0 \<Longrightarrow> hd (numeratorPart k) \<noteq> CHR ''-''" for k
    using decimal_no_minus [of "nat \<bar>k\<bar>"] decimal_nonempty [of "nat \<bar>k\<bar>"]
    by (simp add: numeratorPart_def) (metis hd_in_set)
  from e hd_neg hd_pos have s: "n < 0 \<longleftrightarrow> m < 0" by metis
  with e have "decimal (nat \<bar>n\<bar>) = decimal (nat \<bar>m\<bar>)"
    by (simp add: numeratorPart_def split: if_splits)
  then have "nat \<bar>n\<bar> = nat \<bar>m\<bar>" by (rule decimal_inj)
  with s show "n = m" by linarith
qed

lemma denominatorPart_inj:
  "0 < d \<Longrightarrow> 0 < e \<Longrightarrow> denominatorPart d = denominatorPart e \<Longrightarrow> d = e"
  by (auto simp: denominatorPart_def dest!: decimal_inj split: if_splits)

lemma toFraction_inj: "toFraction a = toFraction b \<Longrightarrow> a = b"
proof -
  assume e: "toFraction a = toFraction b"
  obtain n d where a: "quotient_of a = (n, d)" by (cases "quotient_of a")
  obtain n' d' where b: "quotient_of b = (n', d')" by (cases "quotient_of b")
  from e a b have s: "numeratorPart n @ denominatorPart d = numeratorPart n' @ denominatorPart d'"
    by (simp add: toFraction_parts)
  have "numeratorPart n = numeratorPart n'"
    using arg_cong [OF s, of "takeWhile (\<lambda>c. c \<noteq> CHR ''/'')"] by (simp add: takeWhile_parts)
  then have n: "n = n'" by (rule numeratorPart_inj)
  have "denominatorPart d = denominatorPart d'"
    using arg_cong [OF s, of "dropWhile (\<lambda>c. c \<noteq> CHR ''/'')"] by (simp add: dropWhile_parts)
  moreover have "0 < d" "0 < d'"
    using a b quotient_of_denom_pos by blast+
  ultimately have "d = d'" by (rule denominatorPart_inj [rotated 2])
  with n a b show "a = b" by (simp add: quotient_of_inject)
qed

lemma toFraction_eq_iff [simp]: "toFraction a = toFraction b \<longleftrightarrow> a = b"
  using toFraction_inj by blast

section \<open>Properties of Harmonic\<close>

lemma Math_PI_pos: "0 < Math_PI"
  by (simp add: Math_PI_def)

lemma validate_None_iff: "validate h = None \<longleftrightarrow> valid h"
  by (auto simp: validate_def valid_def)

lemma new_Harmonic_Inr_iff:
  "new_Harmonic f a p = Inr h \<longleftrightarrow>
     h = \<lparr>frequency = f, amplitude = a, phase = p\<rparr> \<and> valid h"
  by (auto simp: new_Harmonic_def Let_def validate_None_iff [symmetric] split: option.splits)

lemma Harmonic_clone_valid: "valid h \<Longrightarrow> Harmonic_clone h = Inr h"
  by (cases h) (simp add: Harmonic_clone_def new_Harmonic_Inr_iff)

lemma Harmonic_clone_Inr: "Harmonic_clone h = Inr c \<Longrightarrow> c = h \<and> valid h"
  by (cases h) (auto simp: Harmonic_clone_def new_Harmonic_Inr_iff)

text \<open>A failing \<open>setAmplitude\<close> or \<open>setPhase\<close> leaves the harmonic as it was.\<close>

lemma setAmplitude_atomic: "fst (setAmplitude a h) \<noteq> None \<Longrightarrow> snd (setAmplitude a h) = h"
  by (auto simp: setAmplitude_def)

lemma setPhase_atomic: "fst (setPhase p h) \<noteq> None \<Longrightarrow> snd (setPhase p h) = h"
  by (auto simp: setPhase_def)

text \<open>
  Claim C2 (setter atomicity): a setter whose argument fails validation throws and leaves
  the harmonic exactly as it was. \<open>setFrequency\<close> does not: on the harmonic with frequency
  \<open>1\<close>, amplitude \<open>1\<close> and phase \<open>0\<close>, the call \<open>setFrequency(-1)\<close> throws and the
  harmonic keeps the frequency \<open>-1\<close>.
\<close>

theorem setFrequency_commits_before_check:
  "setFrequency (- 1) \<lparr>frequency = 1, amplitude = 1, phase = 0\<rparr> =
     (Some FrequencyMustBePositive, \<lparr>frequency = - 1, amplitude = 1, phase = 0\<rparr>)"
  by (simp add: setFrequency_def)

text \<open>
  Claim C4 (invariants of Harmonic), as amended: on a harmonic that satisfies the
  invariants, the constructor, the three setters, \<open>scale\<close> and \<open>clone\<close> leave a harmonic
  that satisfies them whenever they succeed; the constructor and the setters fail exactly
  when their argument violates an invariant; \<open>transpose\<close> and \<open>toTransposed\<close> check
  nothing and keep the invariants when the ratio is positive.
\<close>

theorem Harmonic_invariants:
  assumes "valid h"
  shows "(\<forall>g. new_Harmonic f a p = Inr g \<longrightarrow> valid g)
    \<and> ((\<exists>e. new_Harmonic f a p = Inl e) \<longleftrightarrow>
         \<not> (0 < f \<and> 0 \<le> a \<and> a \<le> 1 \<and> 0 \<le> p \<and> p < 2 * Math_PI))
    \<and> (fst (setFrequency f h) = None \<longrightarrow> valid (snd (setFrequency f h)))
    \<and> (fst (setFrequency f h) \<noteq> None \<longleftrightarrow> f \<le> 0)
    \<and> (fst (setAmplitude a h) = None \<longrightarrow> valid (snd (setAmplitude a h)))
    \<and> (fst (setAmplitude a h) \<noteq> None \<longleftrightarrow> a < 0 \<or> 1 < a)
    \<and> (fst (setPhase p h) = None \<longrightarrow> valid (snd (setPhase p h)))
    \<and> (fst (setPhase p h) \<noteq> None \<longleftrightarrow> p < 0 \<or> 2 * Math_PI \<le> p)
    \<and> valid (Harmonic_scale factor h)
    \<and> Harmonic_clone h = Inr h
    \<and> (0 < ratio \<longrightarrow> valid (Harmonic_transpose ratio h))
    \<and> (0 < ratio \<longrightarrow> Harmonic_toTransposed ratio h = Inr (Harmonic_transpose ratio h))"
proof -
  have c1: "\<forall>g. new_Harmonic f a p = Inr g \<longrightarrow> valid g"
    by (simp add: new_Harmonic_Inr_iff)
  have c2: "(\<exists>e. new_Harmonic f a p = Inl e) \<longleftrightarrow>
         \<not> (0 < f \<and> 0 \<le> a \<and> a \<le> 1 \<and> 0 \<le> p \<and> p < 2 * Math_PI)"
    by (auto simp: new_Harmonic_def validate_def Let_def)
  have c3: "fst (setFrequency f h) = None \<longrightarrow> valid (snd (setFrequency f h))"
    using assms by (auto simp: setFrequency_def valid_def Let_def)
  have c4: "fst (setFrequency f h) \<noteq> None \<longleftrightarrow> f \<le> 0"
    by (simp add: setFrequency_def Let_def)
  have c5: "fst (setAmplitude a h) = None \<longrightarrow> valid (snd (setAmplitude a h))"
    using assms by (auto simp: setAmplitude_def valid_def)
  have c6: "fst (setAmplitude a h) \<noteq> None \<longleftrightarrow> a < 0 \<or> 1 < a"
    by (simp add: setAmplitude_def)
  have c7: "fst (setPhase p h) = None \<longrightarrow> valid (snd (setPhase p h))"
    using assms by (auto simp: setPhase_def valid_def)
  have c8: "fst (setPhase p h) \<noteq> None \<longleftrightarrow> p < 0 \<or> 2 * Math_PI \<le> p"
    by (simp add: setPhase_def)
  have c9: "valid (Harmonic_scale factor h)"
    using assms by (simp add: Harmonic_scale_def valid_def)
  have c10: "Harmonic_clone h = Inr h"
    using assms by (rule Harmonic_clone_valid)
  have c11: "0 < ratio \<longrightarrow> valid (Harmonic_transpose ratio h)"
    using assms by (simp add: Harmonic_transpose_def valid_def)
  have c12: "0 < ratio \<longrightarrow> Harmonic_toTransposed ratio h = Inr (Harmonic_transpose ratio h)"
    by (simp add: Harmonic_toTransposed_def c10)
  show ?thesis
    using c1 c2 c3 c4 c5 c6 c7 c8 c9 c10 c11 c12 by blast
qed

theorem Harmonic_invariants_witness:
  "valid \<lparr>frequency = 1, amplitude = 1, phase = 0\<rparr>
   \<and> valid (snd (setFrequency (3 / 2) \<lparr>frequency = 1, amplitude = 1, phase = 0\<rparr>))
   \<and> valid (Harmonic_transpose 2 \<lparr>frequency = 1, amplitude = 1, phase = 0\<rparr>)
   \<and> Harmonic_toTransposed 2 \<lparr>frequency = 1, amplitude = 1, phase = 0\<rparr> =
       Inr \<lparr>frequency = 2, amplitude = 1, phase = 0\<rparr>"
proof -
  have v: "valid \<lparr>frequency = 1, amplitude = 1, phase = 0\<rparr>"
    by (simp add: valid_def Math_PI_def)
  show ?thesis
    using v Harmonic_invariants [OF v, of "3 / 2" "1 / 2" 0 "1 / 2" 2]
    by (simp add: setFrequency_def Harmonic_transpose_def)
qed

text \<open>The claim as stated fails for \<open>transpose\<close> and \<open>toTransposed\<close>: with the ratio
  \<open>-1\<close> both succeed and leave a negative frequency.\<close>

theorem Harmonic_transpose_unchecked:
  "valid \<lparr>frequency = 1, amplitude = 1, phase = 0\<rparr>
   \<and> \<not> valid (Harmonic_transpose (- 1) \<lparr>frequency = 1, amplitude = 1, phase = 0\<rparr>)
   \<and> Harmonic_toTransposed (- 1) \<lparr>frequency = 1, amplitude = 1, phase = 0\<rparr> =
       Inr \<lparr>frequency = - 1, amplitude = 1, phase = 0\<rparr>"
  by (simp add: valid_def Math_PI_def Harmonic_transpose_def Harmonic_toTransposed_def
      Harmonic_clone_def new_Harmonic_def validate_def)

section \<open>Properties of the Map\<close>

text \<open>\<open>Map_set\<close> and \<open>Map_delete\<close> are the update and the deletion of the library of
  association lists.\<close>

lemma Map_set_update: "Map_set k v m = AList.update k v m"
  by (induction m) auto

lemma Map_delete_delete: "Map_delete k m = AList.delete k m"
  by (induction m) (auto simp: Map_delete_def AList.delete_eq)


lemma map_of_Map_set: "map_of (Map_set k v m) = (map_of m)(k \<mapsto> v)"
  by (simp add: Map_set_update update_conv')

lemma map_of_Map_delete: "map_of (Map_delete k m) = (map_of m)(k := None)"
  by (simp add: Map_delete_delete delete_conv')

lemma keys_Map_set: "fst ` set (Map_set k v m) = insert k (fst ` set m)"
  by (simp add: Map_set_update dom_update)

lemma keys_Map_delete: "fst ` set (Map_delete k m) = fst ` set m - {k}"
  by (auto simp: Map_delete_delete AList.delete_eq)

lemma distinct_Map_set: "distinct (map fst m) \<Longrightarrow> distinct (map fst (Map_set k v m))"
  by (simp add: Map_set_update distinct_update)

lemma distinct_Map_delete: "distinct (map fst m) \<Longrightarrow> distinct (map fst (Map_delete k m))"
  by (simp add: Map_delete_delete distinct_delete)

lemma set_update: "set (AList.update k v m) \<subseteq> insert (k, v) (set m)"
  by (induction m) auto

lemma set_update_distinct:
  "distinct (map fst m) \<Longrightarrow>
     set (AList.update k v m) = insert (k, v) {e \<in> set m. fst e \<noteq> k}"
  by (induction m) (auto simp: rev_image_eqI)

lemma set_Map_set:
  "distinct (map fst m) \<Longrightarrow> set (Map_set k v m) = insert (k, v) {e \<in> set m. fst e \<noteq> k}"
  by (simp add: Map_set_update set_update_distinct)

lemma set_Map_delete: "set (Map_delete k m) = {e \<in> set m. fst e \<noteq> k}"
  by (auto simp: Map_delete_delete AList.delete_eq)

lemma size_Map_set:
  "Map_size (Map_set k v m) = (if k \<in> fst ` set m then Map_size m else Suc (Map_size m))"
  unfolding Map_size_def Map_set_update by (induction m) auto

lemma Map_has_iff: "Map_has k m \<longleftrightarrow> k \<in> fst ` set m"
  by (simp add: Map_has_def map_of_eq_None_iff)

lemma Map_get_Some_iff:
  "distinct (map fst m) \<Longrightarrow> Map_get k m = Some v \<longleftrightarrow> (k, v) \<in> set m"
  by (simp add: Map_get_def)

section \<open>Invariants of the containers\<close>

lemma keyed_empty: "keyed []"
  by (simp add: keyed_def)

lemma keyed_iff:
  "keyed m \<longleftrightarrow> distinct (map fst m) \<and> (\<forall>(k, v) \<in> set m. k = toFraction v)"
  by (auto simp: keyed_def list_all_iff)

lemma consistent_iff:
  "consistent s \<longleftrightarrow> distinct (map fst s) \<and> (\<forall>(k, h) \<in> set s. k = frequencyStr h)"
  by (auto simp: consistent_def list_all_iff)

lemma wellFormed_iff:
  "wellFormed s \<longleftrightarrow> consistent s \<and> (\<forall>(k, h) \<in> set s. valid h)"
  by (auto simp: wellFormed_def list_all_iff)

lemma keyed_add: "keyed m \<Longrightarrow> keyed (IntervalSet_add q m)"
  by (auto simp: keyed_iff IntervalSet_add_def distinct_Map_set set_Map_set)

lemma keyed_delete: "keyed m \<Longrightarrow> keyed (IntervalSet_delete q m)"
  by (auto simp: keyed_iff IntervalSet_delete_def distinct_Map_delete set_Map_delete)

lemma keyed_addEach: "keyed m \<Longrightarrow> keyed (addEach rs m)"
  by (induction rs arbitrary: m) (simp_all add: keyed_add)

lemma keyed_new: "keyed (new_IntervalSet rs)"
  by (simp add: new_IntervalSet_def keyed_addEach keyed_empty)

lemma consistent_empty: "consistent []"
  by (simp add: consistent_def)

lemma consistent_addHarmonic: "consistent s \<Longrightarrow> consistent (addHarmonic h s)"
  by (auto simp: consistent_iff addHarmonic_def distinct_Map_set set_Map_set)

lemma consistent_remove: "consistent s \<Longrightarrow> consistent (Spectrum_remove x s)"
  by (cases x) (auto simp: consistent_iff distinct_Map_delete set_Map_delete)

lemma wellFormed_addHarmonic: "wellFormed s \<Longrightarrow> valid h \<Longrightarrow> wellFormed (addHarmonic h s)"
  by (auto simp: wellFormed_iff consistent_addHarmonic)
    (auto simp: consistent_iff addHarmonic_def set_Map_set)

lemma consistent_add: "consistent s \<Longrightarrow> consistent (snd (Spectrum_add x a p s))"
  by (cases x) (auto simp: consistent_addHarmonic split: sum.splits)

lemma values_distinct_keyed: "keyed m \<Longrightarrow> distinct (Map_values m)"
proof -
  assume k: "keyed m"
  then have "map fst m = map toFraction (map snd m)"
    by (auto simp: keyed_iff)
  with k show ?thesis
    by (metis keyed_iff Map_values_def distinct_map)
qed

lemma frequencies_distinct_consistent:
  "consistent s \<Longrightarrow> distinct (map frequency (Map_values s))"
proof -
  assume k: "consistent s"
  then have "map fst s = map toFraction (map frequency (map snd s))"
    by (auto simp: consistent_iff frequencyStr_def)
  with k show ?thesis
    by (metis consistent_iff Map_values_def distinct_map)
qed

lemma sorted_getRatios: "sorted (getRatios m)"
  using sorted_sort_key [of "\<lambda>x. x" "Map_values m"] by (simp add: getRatios_def)

lemma strict_getRatios: "keyed m \<Longrightarrow> sorted_wrt (<) (getRatios m)"
  by (simp add: strict_sorted_iff sorted_getRatios) (simp add: getRatios_def values_distinct_keyed)

lemma sorted_getHarmonics: "sorted (map frequency (getHarmonics s))"
  by (simp add: getHarmonics_def)

lemma distinct_map_sort_key: "distinct (map f (sort_key f xs)) \<longleftrightarrow> distinct (map f xs)"
proof (induction xs)
  case Nil
  show ?case by simp
next
  case (Cons x xs)
  have "distinct (map f (insort_key f x ys)) \<longleftrightarrow> f x \<notin> f ` set ys \<and> distinct (map f ys)" for ys
    by (induction ys) (auto simp: set_insort_key)
  with Cons show ?case by simp
qed

lemma strict_getHarmonics: "consistent s \<Longrightarrow> sorted_wrt (<) (map frequency (getHarmonics s))"
  by (simp add: strict_sorted_iff sorted_getHarmonics)
    (simp add: getHarmonics_def distinct_map_sort_key frequencies_distinct_consistent)

section \<open>Canonical keys in the containers\<close>

lemma toFraction_three_halves: "toFraction (3 / 2) = ''3/2''"
  by code_simp

lemma toFraction_one: "toFraction 1 = ''1''"
  by code_simp

lemma toFraction_values:
  "toFraction 0 = ''0''" "toFraction 2 = ''2''" "toFraction 3 = ''3''" "toFraction (5 / 4) = ''5/4''"
  by code_simp+

lemma keys_IntervalSet_add: "fst ` set (IntervalSet_add q m) = insert (toFraction q) (fst ` set m)"
  by (simp add: IntervalSet_add_def keys_Map_set)

lemma IntervalSet_has_iff: "IntervalSet_has q m \<longleftrightarrow> toFraction q \<in> fst ` set m"
  by (simp add: IntervalSet_has_def Map_has_iff)

lemma Spectrum_add_frequency:
  assumes "valid \<lparr>frequency = f, amplitude = a, phase = p\<rparr>"
  shows "Spectrum_add (AsFrequency f) (Some a) (Some p) s =
           (None, addHarmonic \<lparr>frequency = f, amplitude = a, phase = p\<rparr> s)"
proof -
  have "new_Harmonic f a p = Inr \<lparr>frequency = f, amplitude = a, phase = p\<rparr>"
    using assms by (simp add: new_Harmonic_Inr_iff)
  then show ?thesis by simp
qed

lemma size_addHarmonic_same:
  "frequency h2 = frequency h1 \<Longrightarrow>
     Map_size (addHarmonic h2 (addHarmonic h1 s)) = Map_size (addHarmonic h1 s)"
  by (simp add: addHarmonic_def frequencyStr_def size_Map_set keys_Map_set)

lemma get_addHarmonic: "Spectrum_get (AsFrequency (frequency h)) (addHarmonic h s) = Some h"
  by (simp add: addHarmonic_def frequencyStr_def Map_get_def map_of_Map_set)

lemma IntervalSet_add_twice: "IntervalSet_add q (IntervalSet_add q m) = IntervalSet_add q m"
  by (simp add: IntervalSet_add_def Map_set_update Let_def)

lemma get_IntervalSet_add: "Map_get (toFraction q) (IntervalSet_add q m) = Some q"
  by (simp add: IntervalSet_add_def Map_get_def map_of_Map_set)

lemma has_IntervalSet_add:
  "IntervalSet_has a (IntervalSet_add b m) \<longleftrightarrow> a = b \<or> IntervalSet_has a m"
  by (simp add: IntervalSet_has_iff keys_IntervalSet_add)

lemma size_IntervalSet_add:
  "Map_size (IntervalSet_add q m) = (if IntervalSet_has q m then Map_size m else Suc (Map_size m))"
  by (simp add: IntervalSet_add_def size_Map_set IntervalSet_has_iff)

lemma new_IntervalSet_three_halves: "new_IntervalSet [6 / 4, 3 / 2] = [(''3/2'', 3 / 2)]"
  by (simp add: new_IntervalSet_def IntervalSet_add_def Map_set_update Let_def toFraction_three_halves)

lemma has_addHarmonic:
  "Spectrum_has (AsFrequency q) (addHarmonic h s) \<longleftrightarrow> q = frequency h \<or> Spectrum_has (AsFrequency q) s"
  by (simp add: addHarmonic_def frequencyStr_def Map_has_iff keys_Map_set)

lemma keys_addHarmonic_same:
  "frequency h2 = frequency h1 \<Longrightarrow>
     Map_keys (addHarmonic h2 (addHarmonic h1 s)) = Map_keys (addHarmonic h1 s)"
  by (simp add: addHarmonic_def frequencyStr_def Map_keys_def Map_set_update update_keys)

text \<open>
  Claim C7 (canonical dedup, last write wins): two inputs with the same reduced fraction
  occupy one entry. Two fractions have the same key exactly when they are equal. After
  \<open>add(q)\<close> an \<open>IntervalSet\<close> has \<open>q\<close>, stored under the key of \<open>q\<close>; its other members
  are those it had, its keys are the old keys and the key of \<open>q\<close>, its size grows by one
  exactly when \<open>q\<close> was not a member, and a second \<open>add(q)\<close> changes nothing. The set built
  from \<open>6/4\<close> and \<open>3/2\<close> is the one entry \<open>3/2\<close>, of size one, and has both inputs.
  Adding a harmonic at a frequency and then another at the same frequency leaves the size
  and the keys of the \<open>Spectrum\<close> unchanged and the entry holds the amplitude and phase of
  the second add; on the empty spectrum, adds at \<open>6/4\<close> and then \<open>3/2\<close> leave exactly the
  entry of the second add under the key \<open>3/2\<close>.
\<close>

theorem canonical_dedup:
  assumes "valid \<lparr>frequency = f, amplitude = a1, phase = p1\<rparr>"
    and "valid \<lparr>frequency = f, amplitude = a2, phase = p2\<rparr>"
  shows "Map_size (IntervalSet_add q (IntervalSet_add q m)) = Map_size (IntervalSet_add q m)
    \<and> Map_size (new_IntervalSet [6 / 4, 3 / 2]) = 1
    \<and> (\<exists>s1 s2. Spectrum_add (AsFrequency f) (Some a1) (Some p1) s = (None, s1)
          \<and> Spectrum_add (AsFrequency f) (Some a2) (Some p2) s1 = (None, s2)
          \<and> Map_size s2 = Map_size s1
          \<and> Spectrum_get (AsFrequency f) s2 = Some \<lparr>frequency = f, amplitude = a2, phase = p2\<rparr>
          \<and> Map_keys s2 = Map_keys s1
          \<and> Spectrum_has (AsFrequency f) s2)
    \<and> (f = 3 / 2 \<longrightarrow>
         snd (Spectrum_add (AsFrequency (3 / 2)) (Some a2) (Some p2)
               (snd (Spectrum_add (AsFrequency (6 / 4)) (Some a1) (Some p1) []))) =
           [(''3/2'', \<lparr>frequency = 3 / 2, amplitude = a2, phase = p2\<rparr>)])
    \<and> (toFraction q = toFraction r \<longleftrightarrow> q = r)
    \<and> IntervalSet_add q (IntervalSet_add q m) = IntervalSet_add q m
    \<and> IntervalSet_has q (IntervalSet_add q m)
    \<and> Map_get (toFraction q) (IntervalSet_add q m) = Some q
    \<and> (IntervalSet_has r (IntervalSet_add q m) \<longleftrightarrow> r = q \<or> IntervalSet_has r m)
    \<and> set (Map_keys (IntervalSet_add q m)) = insert (toFraction q) (set (Map_keys m))
    \<and> Map_size (IntervalSet_add q m) = (if IntervalSet_has q m then Map_size m else Suc (Map_size m))
    \<and> new_IntervalSet [6 / 4, 3 / 2] = [(''3/2'', 3 / 2)]
    \<and> IntervalSet_has (6 / 4) (new_IntervalSet [6 / 4, 3 / 2])
    \<and> IntervalSet_has (3 / 2) (new_IntervalSet [6 / 4, 3 / 2])"
proof -
  let ?h1 = "\<lparr>frequency = f, amplitude = a1, phase = p1\<rparr>"
  let ?h2 = "\<lparr>frequency = f, amplitude = a2, phase = p2\<rparr>"
  have c1: "Map_size (IntervalSet_add q (IntervalSet_add q m)) = Map_size (IntervalSet_add q m)"
    by (simp add: IntervalSet_add_twice)
  have c2: "Map_size (new_IntervalSet [6 / 4, 3 / 2]) = 1"
    unfolding new_IntervalSet_three_halves by (simp add: Map_size_def)
  have a1: "Spectrum_add (AsFrequency f) (Some a1) (Some p1) s = (None, addHarmonic ?h1 s)"
    using assms(1) by (rule Spectrum_add_frequency)
  have a2: "Spectrum_add (AsFrequency f) (Some a2) (Some p2) (addHarmonic ?h1 s) =
      (None, addHarmonic ?h2 (addHarmonic ?h1 s))"
    using assms(2) by (rule Spectrum_add_frequency)
  have sz: "Map_size (addHarmonic ?h2 (addHarmonic ?h1 s)) = Map_size (addHarmonic ?h1 s)"
    by (rule size_addHarmonic_same) simp
  have g: "Spectrum_get (AsFrequency f) (addHarmonic ?h2 (addHarmonic ?h1 s)) = Some ?h2"
    using get_addHarmonic [of ?h2] by simp
  have ks: "Map_keys (addHarmonic ?h2 (addHarmonic ?h1 s)) = Map_keys (addHarmonic ?h1 s)"
    by (rule keys_addHarmonic_same) simp
  have hs: "Spectrum_has (AsFrequency f) (addHarmonic ?h2 (addHarmonic ?h1 s))"
    by (subst has_addHarmonic) simp
  have c3: "\<exists>s1 s2. Spectrum_add (AsFrequency f) (Some a1) (Some p1) s = (None, s1)
          \<and> Spectrum_add (AsFrequency f) (Some a2) (Some p2) s1 = (None, s2)
          \<and> Map_size s2 = Map_size s1
          \<and> Spectrum_get (AsFrequency f) s2 = Some ?h2
          \<and> Map_keys s2 = Map_keys s1
          \<and> Spectrum_has (AsFrequency f) s2"
    using a1 a2 sz g ks hs by blast
  have c4: "f = 3 / 2 \<longrightarrow>
         snd (Spectrum_add (AsFrequency (3 / 2)) (Some a2) (Some p2)
               (snd (Spectrum_add (AsFrequency (6 / 4)) (Some a1) (Some p1) []))) =
           [(''3/2'', \<lparr>frequency = 3 / 2, amplitude = a2, phase = p2\<rparr>)]"
  proof
    assume f: "f = 3 / 2"
    let ?g1 = "\<lparr>frequency = 3 / 2, amplitude = a1, phase = p1\<rparr>"
    let ?g2 = "\<lparr>frequency = 3 / 2, amplitude = a2, phase = p2\<rparr>"
    have v1: "valid ?g1" using assms(1) unfolding f .
    have v2: "valid ?g2" using assms(2) unfolding f .
    have e: "(6 / 4 :: rat) = 3 / 2" by simp
    have "Spectrum_add (AsFrequency (6 / 4)) (Some a1) (Some p1) [] = (None, addHarmonic ?g1 [])"
      unfolding e using v1 by (rule Spectrum_add_frequency)
    moreover have "Spectrum_add (AsFrequency (3 / 2)) (Some a2) (Some p2) (addHarmonic ?g1 []) =
        (None, addHarmonic ?g2 (addHarmonic ?g1 []))"
      using v2 by (rule Spectrum_add_frequency)
    moreover have "addHarmonic ?g2 (addHarmonic ?g1 []) = [(''3/2'', ?g2)]"
      by (simp add: addHarmonic_def frequencyStr_def Map_set_update toFraction_three_halves)
    ultimately show "snd (Spectrum_add (AsFrequency (3 / 2)) (Some a2) (Some p2)
               (snd (Spectrum_add (AsFrequency (6 / 4)) (Some a1) (Some p1) []))) =
           [(''3/2'', \<lparr>frequency = 3 / 2, amplitude = a2, phase = p2\<rparr>)]"
      by (simp only: snd_conv)
  qed
  have c5: "toFraction q = toFraction r \<longleftrightarrow> q = r" by simp
  have c6: "IntervalSet_add q (IntervalSet_add q m) = IntervalSet_add q m"
    by (rule IntervalSet_add_twice)
  have c7: "IntervalSet_has q (IntervalSet_add q m)"
    by (simp add: has_IntervalSet_add)
  have c8: "Map_get (toFraction q) (IntervalSet_add q m) = Some q"
    by (rule get_IntervalSet_add)
  have c9: "IntervalSet_has r (IntervalSet_add q m) \<longleftrightarrow> r = q \<or> IntervalSet_has r m"
    by (rule has_IntervalSet_add)
  have c10: "set (Map_keys (IntervalSet_add q m)) = insert (toFraction q) (set (Map_keys m))"
    by (simp add: Map_keys_def keys_IntervalSet_add)
  have c11: "Map_size (IntervalSet_add q m) =
      (if IntervalSet_has q m then Map_size m else Suc (Map_size m))"
    by (rule size_IntervalSet_add)
  have c12: "new_IntervalSet [6 / 4, 3 / 2] = [(''3/2'', 3 / 2)]"
    by (rule new_IntervalSet_three_halves)
  have c13: "IntervalSet_has (6 / 4) (new_IntervalSet [6 / 4, 3 / 2])"
    "IntervalSet_has (3 / 2) (new_IntervalSet [6 / 4, 3 / 2])"
    by (simp_all add: new_IntervalSet_def has_IntervalSet_add)
  show ?thesis
    by (intro conjI c1 c2 c3 c4 c5 c6 c7 c8 c9 c10 c11 c12 c13)
qed

theorem canonical_dedup_witness:
  "valid \<lparr>frequency = 3 / 2, amplitude = 1 / 2, phase = 0\<rparr>
   \<and> valid \<lparr>frequency = 3 / 2, amplitude = 1 / 4, phase = 1\<rparr>
   \<and> snd (Spectrum_add (AsFrequency (3 / 2)) (Some (1 / 4)) (Some 1)
        (snd (Spectrum_add (AsFrequency (6 / 4)) (Some (1 / 2)) (Some 0) []))) =
      [(''3/2'', \<lparr>frequency = 3 / 2, amplitude = 1 / 4, phase = 1\<rparr>)]
   \<and> new_IntervalSet [6 / 4, 3 / 2] = [(''3/2'', 3 / 2)]
   \<and> Map_size (new_IntervalSet [6 / 4, 3 / 2]) = 1
   \<and> IntervalSet_has (3 / 2) (new_IntervalSet [6 / 4, 3 / 2])"
proof -
  have v1: "valid \<lparr>frequency = 3 / 2, amplitude = 1 / 2, phase = 0\<rparr>"
    by (simp add: valid_def Math_PI_def)
  have v2: "valid \<lparr>frequency = 3 / 2, amplitude = 1 / 4, phase = 1\<rparr>"
    by (simp add: valid_def Math_PI_def)
  note t = canonical_dedup [OF v1 v2, of 1 "[]" "[]" 1]
  from t have w1: "snd (Spectrum_add (AsFrequency (3 / 2)) (Some (1 / 4)) (Some 1)
        (snd (Spectrum_add (AsFrequency (6 / 4)) (Some (1 / 2)) (Some 0) []))) =
      [(''3/2'', \<lparr>frequency = 3 / 2, amplitude = 1 / 4, phase = 1\<rparr>)]"
    by blast
  from t have w2: "new_IntervalSet [6 / 4, 3 / 2] = [(''3/2'', 3 / 2)]"
    by blast
  from t have w3: "Map_size (new_IntervalSet [6 / 4, 3 / 2]) = 1"
    by blast
  from t have w4: "IntervalSet_has (3 / 2) (new_IntervalSet [6 / 4, 3 / 2])"
    by blast
  show ?thesis
    by (intro conjI v1 v2 w1 w2 w3 w4)
qed

lemma count_list_insort_key: "count_list (insort_key f a xs) x = count_list (a # xs) x"
  by (induction xs) auto

lemma count_list_sort_key: "count_list (sort_key f xs) x = count_list xs x"
  by (induction xs) (simp_all add: count_list_insort_key)

lemma values_IntervalSet_add:
  assumes "keyed m"
  shows "set (Map_values (IntervalSet_add q m)) = insert q (set (Map_values m))"
proof -
  from assms have d: "distinct (map fst m)" and k: "\<And>e. e \<in> set m \<Longrightarrow> fst e = toFraction (snd e)"
    by (auto simp: keyed_iff)
  have s: "set (IntervalSet_add q m) = insert (toFraction q, q) {e \<in> set m. fst e \<noteq> toFraction q}"
    using d by (simp add: IntervalSet_add_def set_Map_set)
  show ?thesis
  proof (rule set_eqI)
    fix v
    show "v \<in> set (Map_values (IntervalSet_add q m)) \<longleftrightarrow> v \<in> insert q (set (Map_values m))"
    proof (cases "v = q")
      case True
      then show ?thesis unfolding Map_values_def set_map s by simp
    next
      case False
      have "v \<in> snd ` {e \<in> set m. fst e \<noteq> toFraction q} \<longleftrightarrow> v \<in> snd ` set m"
      proof
        assume "v \<in> snd ` {e \<in> set m. fst e \<noteq> toFraction q}"
        then show "v \<in> snd ` set m" by auto
      next
        assume "v \<in> snd ` set m"
        then obtain e where e: "e \<in> set m" "snd e = v" by auto
        with k [OF e(1)] False have "fst e \<noteq> toFraction q" by simp
        with e show "v \<in> snd ` {e \<in> set m. fst e \<noteq> toFraction q}" by force
      qed
      with False show ?thesis unfolding Map_values_def set_map s by simp
    qed
  qed
qed

lemma values_addEach:
  "keyed m \<Longrightarrow> set (Map_values (addEach rs m)) = set rs \<union> set (Map_values m)"
proof (induction rs arbitrary: m)
  case Nil
  show ?case by simp
next
  case (Cons r rs)
  from Cons.prems have "keyed (IntervalSet_add r m)" by (rule keyed_add)
  from Cons.IH [OF this] values_IntervalSet_add [OF Cons.prems, of r]
  show ?case by simp
qed

lemma set_getRatios: "set (getRatios m) = set (Map_values m)"
  by (simp add: getRatios_def)

lemma set_getHarmonics: "set (getHarmonics s) = set (Map_values s)"
  by (simp add: getHarmonics_def)

lemma getRatios_new: "set (getRatios (new_IntervalSet rs)) = set rs"
  using values_addEach [OF keyed_empty, of rs]
  by (simp add: set_getRatios new_IntervalSet_def Map_values_def)

lemma frequencies_addHarmonic:
  assumes "consistent s"
  shows "frequency ` set (Map_values (addHarmonic h s)) = insert (frequency h) (frequency ` set (Map_values s))"
proof -
  from assms have d: "distinct (map fst s)"
    and k: "\<And>e. e \<in> set s \<Longrightarrow> fst e = toFraction (frequency (snd e))"
    by (auto simp: consistent_iff frequencyStr_def)
  have s: "set (addHarmonic h s) = insert (frequencyStr h, h) {e \<in> set s. fst e \<noteq> frequencyStr h}"
    using d by (simp add: addHarmonic_def set_Map_set)
  show ?thesis
  proof (rule set_eqI)
    fix v
    show "v \<in> frequency ` set (Map_values (addHarmonic h s))
        \<longleftrightarrow> v \<in> insert (frequency h) (frequency ` set (Map_values s))"
    proof (cases "v = frequency h")
      case True
      then show ?thesis unfolding Map_values_def set_map s by simp
    next
      case False
      have "v \<in> frequency ` snd ` {e \<in> set s. fst e \<noteq> frequencyStr h} \<longleftrightarrow> v \<in> frequency ` snd ` set s"
      proof
        assume "v \<in> frequency ` snd ` {e \<in> set s. fst e \<noteq> frequencyStr h}"
        then show "v \<in> frequency ` snd ` set s" by auto
      next
        assume "v \<in> frequency ` snd ` set s"
        then obtain e where e: "e \<in> set s" "frequency (snd e) = v" by auto
        with k [OF e(1)] False have "fst e \<noteq> frequencyStr h" by (simp add: frequencyStr_def)
        with e show "v \<in> frequency ` snd ` {e \<in> set s. fst e \<noteq> frequencyStr h}" by force
      qed
      with False show ?thesis unfolding Map_values_def set_map s by simp
    qed
  qed
qed

lemma consistent_fold_addHarmonic: "consistent s \<Longrightarrow> consistent (fold addHarmonic hs s)"
  by (induction hs arbitrary: s) (simp_all add: consistent_addHarmonic)

lemma frequencies_fold_addHarmonic:
  "consistent s \<Longrightarrow>
     frequency ` set (Map_values (fold addHarmonic hs s)) = frequency ` set hs \<union> frequency ` set (Map_values s)"
proof (induction hs arbitrary: s)
  case Nil
  show ?case by simp
next
  case (Cons h hs)
  from Cons.prems have "consistent (addHarmonic h s)" by (rule consistent_addHarmonic)
  from Cons.IH [OF this] frequencies_addHarmonic [OF Cons.prems, of h]
  show ?case by simp
qed

lemma getHarmonics_fold:
  "frequency ` set (getHarmonics (fold addHarmonic hs [])) = frequency ` set hs"
  using frequencies_fold_addHarmonic [OF consistent_empty, of hs]
  by (simp add: set_getHarmonics Map_values_def)

text \<open>The snapshot does not depend on the order of the entries.\<close>

lemma getRatios_order:
  assumes "keyed m" and "keyed m'" and "set m = set m'"
  shows "getRatios m = getRatios m'"
proof (rule sorted_distinct_set_unique)
  show "sorted (getRatios m)" "sorted (getRatios m')" by (rule sorted_getRatios)+
  from strict_getRatios [OF assms(1)] show "distinct (getRatios m)"
    by (simp add: strict_sorted_iff)
  from strict_getRatios [OF assms(2)] show "distinct (getRatios m')"
    by (simp add: strict_sorted_iff)
  from assms(3) show "set (getRatios m) = set (getRatios m')"
    by (simp add: set_getRatios Map_values_def)
qed

lemma getHarmonics_order:
  assumes "consistent s" and "consistent s'" and "set s = set s'"
  shows "getHarmonics s = getHarmonics s'"
proof -
  have f: "map frequency (getHarmonics s) = map frequency (getHarmonics s')"
  proof (rule sorted_distinct_set_unique)
    show "sorted (map frequency (getHarmonics s))" "sorted (map frequency (getHarmonics s'))"
      by (rule sorted_getHarmonics)+
    from strict_getHarmonics [OF assms(1)] show d: "distinct (map frequency (getHarmonics s))"
      by (simp add: strict_sorted_iff)
    from strict_getHarmonics [OF assms(2)] show "distinct (map frequency (getHarmonics s'))"
      by (simp add: strict_sorted_iff)
    from assms(3) show "set (map frequency (getHarmonics s)) = set (map frequency (getHarmonics s'))"
      by (simp add: set_getHarmonics Map_values_def)
  qed
  from strict_getHarmonics [OF assms(1)] have "distinct (map frequency (getHarmonics s))"
    by (simp add: strict_sorted_iff)
  then have i: "inj_on frequency (set (getHarmonics s))"
    by (simp add: distinct_map)
  from assms(3) have e: "set (getHarmonics s') = set (getHarmonics s)"
    by (simp add: set_getHarmonics Map_values_def)
  from i e have "inj_on frequency (set (getHarmonics s) \<union> set (getHarmonics s'))" by simp
  from inj_on_map_eq_map [OF this] f show ?thesis by simp
qed

text \<open>
  Claim C8 (sorted snapshots), as amended: \<open>getRatios\<close> and \<open>getHarmonics\<close> return the
  stored values, each as often as it is stored, in ascending order of value and of frequency. For every
  interval set and spectrum whose entries are stored under their own keys, in particular
  for those built by adding entries in any order, the sequence is strictly ascending and
  does not depend on the order of the entries; the ratios of a set built from a list are
  the elements of the list, and the frequencies of a spectrum built from a list of
  harmonics are the frequencies of the list.
\<close>

theorem sorted_snapshots:
  "(keyed m \<longrightarrow> sorted_wrt (<) (getRatios m))
   \<and> (consistent s \<longrightarrow> sorted_wrt (<) (map frequency (getHarmonics s)))
   \<and> sorted_wrt (<) (getRatios (new_IntervalSet rs))
   \<and> sorted_wrt (<) (map frequency (getHarmonics (fold addHarmonic hs [])))
   \<and> sorted (getRatios m)
   \<and> (\<forall>q. count_list (getRatios m) q = count_list (Map_values m) q)
   \<and> sorted (map frequency (getHarmonics s))
   \<and> (\<forall>h. count_list (getHarmonics s) h = count_list (Map_values s) h)
   \<and> set (getRatios (new_IntervalSet rs)) = set rs
   \<and> frequency ` set (getHarmonics (fold addHarmonic hs [])) = frequency ` set hs
   \<and> (keyed m \<and> keyed m' \<and> set m = set m' \<longrightarrow> getRatios m = getRatios m')
   \<and> (consistent s \<and> consistent s' \<and> set s = set s' \<longrightarrow> getHarmonics s = getHarmonics s')"
proof -
  have c: "consistent (fold addHarmonic hs [])"
    by (simp add: consistent_fold_addHarmonic consistent_empty)
  have c1: "keyed m \<longrightarrow> sorted_wrt (<) (getRatios m)"
    by (simp add: strict_getRatios)
  have c2: "consistent s \<longrightarrow> sorted_wrt (<) (map frequency (getHarmonics s))"
    by (simp add: strict_getHarmonics)
  have c3: "sorted_wrt (<) (getRatios (new_IntervalSet rs))"
    by (simp add: strict_getRatios keyed_new)
  have c4: "sorted_wrt (<) (map frequency (getHarmonics (fold addHarmonic hs [])))"
    using c by (rule strict_getHarmonics)
  have c5: "sorted (getRatios m)" by (rule sorted_getRatios)
  have c6: "\<forall>q. count_list (getRatios m) q = count_list (Map_values m) q"
    by (simp add: getRatios_def count_list_sort_key)
  have c7: "sorted (map frequency (getHarmonics s))" by (rule sorted_getHarmonics)
  have c8: "\<forall>h. count_list (getHarmonics s) h = count_list (Map_values s) h"
    by (simp add: getHarmonics_def count_list_sort_key)
  have c9: "set (getRatios (new_IntervalSet rs)) = set rs" by (rule getRatios_new)
  have c10: "frequency ` set (getHarmonics (fold addHarmonic hs [])) = frequency ` set hs"
    by (rule getHarmonics_fold)
  have c11: "keyed m \<and> keyed m' \<and> set m = set m' \<longrightarrow> getRatios m = getRatios m'"
    using getRatios_order by blast
  have c12: "consistent s \<and> consistent s' \<and> set s = set s' \<longrightarrow> getHarmonics s = getHarmonics s'"
    using getHarmonics_order by blast
  show ?thesis
    by (intro conjI c1 c2 c3 c4 c5 c6 c7 c8 c9 c10 c11 c12)
qed

theorem sorted_snapshots_witness:
  "keyed (new_IntervalSet [2, 3 / 2, 1])
   \<and> getRatios (new_IntervalSet [2, 3 / 2, 1]) = [1, 3 / 2, 2]
   \<and> sorted_wrt (<) (getRatios (new_IntervalSet [2, 3 / 2, 1]))
   \<and> consistent (addHarmonic \<lparr>frequency = 1, amplitude = 1, phase = 0\<rparr>
        (addHarmonic \<lparr>frequency = 2, amplitude = 1, phase = 0\<rparr> []))
   \<and> sorted_wrt (<) (map frequency (getHarmonics
        (addHarmonic \<lparr>frequency = 1, amplitude = 1, phase = 0\<rparr>
          (addHarmonic \<lparr>frequency = 2, amplitude = 1, phase = 0\<rparr> []))))
   \<and> keyed (new_IntervalSet [1, 3 / 2, 2])
   \<and> set (new_IntervalSet [2, 3 / 2, 1]) = set (new_IntervalSet [1, 3 / 2, 2])
   \<and> getRatios (new_IntervalSet [2, 3 / 2, 1]) = getRatios (new_IntervalSet [1, 3 / 2, 2])
   \<and> consistent (addHarmonic \<lparr>frequency = 2, amplitude = 1, phase = 0\<rparr>
        (addHarmonic \<lparr>frequency = 1, amplitude = 1, phase = 0\<rparr> []))
   \<and> set (addHarmonic \<lparr>frequency = 1, amplitude = 1, phase = 0\<rparr>
        (addHarmonic \<lparr>frequency = 2, amplitude = 1, phase = 0\<rparr> []))
      = set (addHarmonic \<lparr>frequency = 2, amplitude = 1, phase = 0\<rparr>
        (addHarmonic \<lparr>frequency = 1, amplitude = 1, phase = 0\<rparr> []))
   \<and> getHarmonics (addHarmonic \<lparr>frequency = 1, amplitude = 1, phase = 0\<rparr>
        (addHarmonic \<lparr>frequency = 2, amplitude = 1, phase = 0\<rparr> []))
      = getHarmonics (addHarmonic \<lparr>frequency = 2, amplitude = 1, phase = 0\<rparr>
        (addHarmonic \<lparr>frequency = 1, amplitude = 1, phase = 0\<rparr> []))"
proof -
  let ?s = "addHarmonic \<lparr>frequency = 1, amplitude = 1, phase = 0\<rparr>
        (addHarmonic \<lparr>frequency = 2, amplitude = 1, phase = 0\<rparr> [])"
  let ?s' = "addHarmonic \<lparr>frequency = 2, amplitude = 1, phase = 0\<rparr>
        (addHarmonic \<lparr>frequency = 1, amplitude = 1, phase = 0\<rparr> [])"
  let ?m = "new_IntervalSet [2, 3 / 2, 1]"
  let ?m' = "new_IntervalSet [1, 3 / 2, 2]"
  have k: "keyed ?m" "keyed ?m'" by (rule keyed_new)+
  have c: "consistent ?s" "consistent ?s'"
    by (simp_all add: consistent_addHarmonic consistent_empty)
  have g: "getRatios ?m = [1, 3 / 2, 2]"
    by (simp add: getRatios_def new_IntervalSet_def IntervalSet_add_def Map_set_update Map_values_def
        Let_def)
  have em: "set ?m = set ?m'"
    by (simp add: new_IntervalSet_def IntervalSet_add_def Map_set_update Let_def insert_commute)
  have es: "set ?s = set ?s'"
    by (simp add: addHarmonic_def frequencyStr_def Map_set_update Let_def insert_commute)
  note t = sorted_snapshots [of ?m ?s]
  from t k have w1: "sorted_wrt (<) (getRatios ?m)" by blast
  from t c have w2: "sorted_wrt (<) (map frequency (getHarmonics ?s))" by blast
  from sorted_snapshots [of ?m ?s _ _ ?m' ?s'] k em have w3: "getRatios ?m = getRatios ?m'" by blast
  from sorted_snapshots [of ?m ?s _ _ ?m' ?s'] c es have w4: "getHarmonics ?s = getHarmonics ?s'"
    by blast
  show ?thesis
    by (intro conjI k g w1 c w2 em w3 es w4)
qed

text \<open>The claim as stated fails on a spectrum whose stored harmonic was changed through the
  object that \<open>get\<close> returns: after adds at 1 and 2, \<open>s.get(1).transpose(2)\<close> leaves two
  harmonics of frequency 2, and the snapshot is not strictly ascending.\<close>

theorem getHarmonics_after_mutation:
  "mutateStored (AsFrequency 1) (Harmonic_transpose 2)
      (snd (Spectrum_add (AsFrequency 2) (Some 1) (Some 0)
        (snd (Spectrum_add (AsFrequency 1) (Some 1) (Some 0) []))))
     = Some [(''1'', \<lparr>frequency = 2, amplitude = 1, phase = 0\<rparr>),
             (''2'', \<lparr>frequency = 2, amplitude = 1, phase = 0\<rparr>)]
   \<and> map frequency (getHarmonics [(''1'', \<lparr>frequency = 2, amplitude = 1, phase = 0\<rparr>),
             (''2'', \<lparr>frequency = 2, amplitude = 1, phase = 0\<rparr>)]) = [2, 2]
   \<and> \<not> sorted_wrt (<) (map frequency (getHarmonics
         [(''1'', \<lparr>frequency = 2, amplitude = 1, phase = 0\<rparr>),
          (''2'', \<lparr>frequency = 2, amplitude = 1, phase = 0\<rparr>)]))"
proof -
  let ?h1 = "\<lparr>frequency = 1, amplitude = 1, phase = 0\<rparr>"
  let ?h2 = "\<lparr>frequency = 2, amplitude = 1, phase = 0\<rparr>"
  have v: "valid ?h1" "valid ?h2" by (simp_all add: valid_def Math_PI_def)
  have a1: "Spectrum_add (AsFrequency 1) (Some 1) (Some 0) [] = (None, addHarmonic ?h1 [])"
    using v(1) by (rule Spectrum_add_frequency)
  have a2: "Spectrum_add (AsFrequency 2) (Some 1) (Some 0) (addHarmonic ?h1 [])
      = (None, addHarmonic ?h2 (addHarmonic ?h1 []))"
    using v(2) by (rule Spectrum_add_frequency)
  have s: "addHarmonic ?h2 (addHarmonic ?h1 []) = [(''1'', ?h1), (''2'', ?h2)]"
    by (simp add: addHarmonic_def frequencyStr_def Map_set_update toFraction_one toFraction_values)
  have m: "mutateStored (AsFrequency 1) (Harmonic_transpose 2) [(''1'', ?h1), (''2'', ?h2)]
      = Some [(''1'', ?h2), (''2'', ?h2)]"
    by (simp add: Map_get_def toFraction_one Harmonic_transpose_def)
  have g: "map frequency (getHarmonics [(''1'', ?h2), (''2'', ?h2)]) = [2, 2]"
    by (simp add: getHarmonics_def Map_values_def)
  show ?thesis
    unfolding a1 a2 snd_conv s m g by simp
qed


lemma lookup_by_key:
  "Spectrum_get (AsHarmonic h) s = Spectrum_get (AsFrequency (frequency h)) s
   \<and> Spectrum_has (AsHarmonic h) s = Spectrum_has (AsFrequency (frequency h)) s
   \<and> Spectrum_remove (AsHarmonic h) s = Spectrum_remove (AsFrequency (frequency h)) s"
  by (simp add: frequencyStr_def)

lemma filter_other_keys:
  assumes "\<And>e. e \<in> set s \<Longrightarrow> fst e = k \<Longrightarrow> e = (k, g)"
  shows "{e \<in> set s. fst e \<noteq> k} = set s - {(k, g)}"
proof (rule set_eqI)
  fix e
  show "e \<in> {e \<in> set s. fst e \<noteq> k} \<longleftrightarrow> e \<in> set s - {(k, g)}"
  proof (cases "fst e = k")
    case True
    then show ?thesis using assms [of e] by auto
  next
    case False
    then show ?thesis by auto
  qed
qed

lemma length_filter_other_keys:
  assumes "distinct (map fst s)" and "(k, g) \<in> set s"
  shows "length (filter (\<lambda>e. fst e \<noteq> k) s) = length s - 1"
  using assms
proof (induction s)
  case Nil
  then show ?case by simp
next
  case (Cons e s)
  show ?case
  proof (cases "fst e = k")
    case True
    with Cons.prems have "k \<notin> fst ` set s" by auto
    then have "filter (\<lambda>e. fst e \<noteq> k) s = s"
      by (auto simp: filter_id_conv)
    with True show ?thesis by simp
  next
    case False
    with Cons.prems have "(k, g) \<in> set s" by auto
    moreover from this have "0 < length s" by (cases s) auto
    ultimately show ?thesis using False Cons by simp
  qed
qed

lemma Map_delete_filter: "Map_delete k s = filter (\<lambda>e. fst e \<noteq> k) s"
  unfolding Map_delete_delete by (induction s) (auto simp: AList.delete_eq)

lemma has_by_key: "Spectrum_has (AsHarmonic h) s \<longleftrightarrow> frequencyStr h \<in> set (Map_keys s)"
  by (simp add: Map_has_iff Map_keys_def)

lemma lookup_stored:
  assumes "consistent s" and "(k, g) \<in> set s" and "frequency g = frequency h"
  shows "Spectrum_has (AsHarmonic h) s
    \<and> Spectrum_get (AsHarmonic h) s = Some g
    \<and> set (Spectrum_remove (AsHarmonic h) s) = set s - {(k, g)}
    \<and> (\<forall>g' \<in> set (Map_values (Spectrum_remove (AsHarmonic h) s)). frequency g' \<noteq> frequency h)
    \<and> Map_size (Spectrum_remove (AsHarmonic h) s) = Map_size s - 1"
proof -
  from assms(1) have d: "distinct (map fst s)"
    and ks: "\<And>k' g'. (k', g') \<in> set s \<Longrightarrow> k' = frequencyStr g'"
    by (auto simp: consistent_iff)
  have k: "k = frequencyStr h"
    using ks [OF assms(2)] assms(3) by (simp add: frequencyStr_def)
  have "k \<in> fst ` set s"
    using assms(2) by force
  then have c1: "Spectrum_has (AsHarmonic h) s"
    using k by (simp add: Map_has_iff)
  have c2: "Spectrum_get (AsHarmonic h) s = Some g"
    using assms(2) k d by (simp add: Map_get_Some_iff)
  have only: "e = (k, g)" if "e \<in> set s" "fst e = k" for e
  proof -
    obtain a b where e: "e = (a, b)" by (cases e)
    with that have "(k, b) \<in> set s" by simp
    with d assms(2) have "g = b" by (rule eq_key_imp_eq_value)
    with that e show ?thesis by simp
  qed
  have c3: "set (Spectrum_remove (AsHarmonic h) s) = set s - {(k, g)}"
    using filter_other_keys [of s k g, OF only] k by (simp add: Map_delete_filter)
  have c4: "\<forall>g' \<in> set (Map_values (Spectrum_remove (AsHarmonic h) s)). frequency g' \<noteq> frequency h"
  proof
    fix g' assume "g' \<in> set (Map_values (Spectrum_remove (AsHarmonic h) s))"
    then obtain k' where m: "(k', g') \<in> set s" and ne: "k' \<noteq> frequencyStr h"
      by (auto simp: Map_values_def set_Map_delete)
    from ks [OF m] ne show "frequency g' \<noteq> frequency h"
      by (auto simp: frequencyStr_def)
  qed
  have c5: "Map_size (Spectrum_remove (AsHarmonic h) s) = Map_size s - 1"
    using length_filter_other_keys [OF d assms(2)] k by (simp add: Map_size_def Map_delete_filter)
  from c1 c2 c3 c4 c5 show ?thesis by (intro conjI)
qed

lemma has_stored:
  assumes "consistent s"
  shows "Spectrum_has (AsHarmonic h) s \<longleftrightarrow> (\<exists>g \<in> set (Map_values s). frequency g = frequency h)"
proof
  assume "Spectrum_has (AsHarmonic h) s"
  then have "frequencyStr h \<in> fst ` set s" by (simp add: Map_has_iff)
  then obtain e where e: "e \<in> set s" "fst e = frequencyStr h" by auto
  obtain k g where kg: "e = (k, g)" by (cases e)
  from assms e kg have "k = frequencyStr g" by (auto simp: consistent_iff)
  with e kg have "frequency g = frequency h" by (simp add: frequencyStr_def)
  moreover from e kg have "g \<in> set (Map_values s)" by (force simp: Map_values_def)
  ultimately show "\<exists>g \<in> set (Map_values s). frequency g = frequency h" by blast
next
  assume "\<exists>g \<in> set (Map_values s). frequency g = frequency h"
  then obtain g where g: "g \<in> set (Map_values s)" "frequency g = frequency h" by blast
  then obtain k where "(k, g) \<in> set s" by (auto simp: Map_values_def)
  from lookup_stored [OF assms this g(2)] show "Spectrum_has (AsHarmonic h) s" by blast
qed

lemma absent_by_key:
  assumes "\<not> Spectrum_has (AsHarmonic h) s"
  shows "Spectrum_get (AsHarmonic h) s = None \<and> Spectrum_remove (AsHarmonic h) s = s"
proof -
  from assms have n: "frequencyStr h \<notin> fst ` set s" by (simp add: Map_has_iff)
  then have "map_of s (frequencyStr h) = None" by (simp add: map_of_eq_None_iff)
  moreover from n have "filter (\<lambda>e. fst e \<noteq> frequencyStr h) s = s"
    by (force simp: filter_id_conv)
  ultimately show ?thesis by (simp add: Map_get_def Map_delete_filter)
qed

text \<open>
  Claim C9 (lookup by frequency only), as amended: \<open>get\<close>, \<open>has\<close> and \<open>remove\<close> called
  with a \<open>Harmonic\<close> use the key of its frequency alone: \<open>has(h)\<close> is true exactly when that key
  is a key of the spectrum, \<open>get(h)\<close> is the value stored under it, \<open>remove(h)\<close> removes
  the entry under it and no other, the three agree with the calls on the frequency of \<open>h\<close>,
  and two arguments with equal frequencies give the same results. In a spectrum whose
  entries are stored under the key of their own frequency, \<open>has(h)\<close> is true exactly when
  a harmonic with the frequency of \<open>h\<close> is stored, whatever the amplitude and phase of
  either; \<open>get(h)\<close> then returns that harmonic and \<open>remove(h)\<close> removes exactly its entry.
\<close>

theorem lookup_by_frequency_only:
  "(Spectrum_has (AsHarmonic h) s \<longleftrightarrow> frequencyStr h \<in> set (Map_keys s))
   \<and> Spectrum_get (AsHarmonic h) s = map_of s (frequencyStr h)
   \<and> Spectrum_remove (AsHarmonic h) s = filter (\<lambda>e. fst e \<noteq> frequencyStr h) s
   \<and> (frequencyStr h' = frequencyStr h \<longleftrightarrow> frequency h' = frequency h)
   \<and> Spectrum_get (AsHarmonic h) s = Spectrum_get (AsFrequency (frequency h)) s
   \<and> Spectrum_has (AsHarmonic h) s = Spectrum_has (AsFrequency (frequency h)) s
   \<and> Spectrum_remove (AsHarmonic h) s = Spectrum_remove (AsFrequency (frequency h)) s
   \<and> (\<forall>h'. frequency h' = frequency h \<longrightarrow>
          Spectrum_get (AsHarmonic h') s = Spectrum_get (AsHarmonic h) s
          \<and> Spectrum_has (AsHarmonic h') s = Spectrum_has (AsHarmonic h) s
          \<and> Spectrum_remove (AsHarmonic h') s = Spectrum_remove (AsHarmonic h) s)
   \<and> (\<not> Spectrum_has (AsHarmonic h) s \<longrightarrow>
          Spectrum_get (AsHarmonic h) s = None \<and> Spectrum_remove (AsHarmonic h) s = s)
   \<and> (consistent s \<longrightarrow>
          (Spectrum_has (AsHarmonic h) s \<longleftrightarrow> (\<exists>g \<in> set (Map_values s). frequency g = frequency h))
        \<and> consistent (Spectrum_remove (AsHarmonic h) s)
        \<and> (\<forall>k g. (k, g) \<in> set s \<and> frequency g = frequency h \<longrightarrow>
              Spectrum_has (AsHarmonic h) s
            \<and> Spectrum_get (AsHarmonic h) s = Some g
            \<and> set (Spectrum_remove (AsHarmonic h) s) = set s - {(k, g)}
            \<and> (\<forall>g' \<in> set (Map_values (Spectrum_remove (AsHarmonic h) s)). frequency g' \<noteq> frequency h)
            \<and> Map_size (Spectrum_remove (AsHarmonic h) s) = Map_size s - 1))"
proof -
  have c1: "Spectrum_has (AsHarmonic h) s \<longleftrightarrow> frequencyStr h \<in> set (Map_keys s)"
    by (rule has_by_key)
  have c2: "Spectrum_get (AsHarmonic h) s = map_of s (frequencyStr h)"
    by (simp add: Map_get_def)
  have c3: "Spectrum_remove (AsHarmonic h) s = filter (\<lambda>e. fst e \<noteq> frequencyStr h) s"
    by (simp add: Map_delete_filter)
  have c4: "frequencyStr h' = frequencyStr h \<longleftrightarrow> frequency h' = frequency h"
    by (simp add: frequencyStr_def)
  have c5: "Spectrum_get (AsHarmonic h) s = Spectrum_get (AsFrequency (frequency h)) s"
    "Spectrum_has (AsHarmonic h) s = Spectrum_has (AsFrequency (frequency h)) s"
    "Spectrum_remove (AsHarmonic h) s = Spectrum_remove (AsFrequency (frequency h)) s"
    by (simp_all add: frequencyStr_def)
  have c6: "\<forall>h'. frequency h' = frequency h \<longrightarrow>
          Spectrum_get (AsHarmonic h') s = Spectrum_get (AsHarmonic h) s
          \<and> Spectrum_has (AsHarmonic h') s = Spectrum_has (AsHarmonic h) s
          \<and> Spectrum_remove (AsHarmonic h') s = Spectrum_remove (AsHarmonic h) s"
    by (simp add: frequencyStr_def)
  have c7: "\<not> Spectrum_has (AsHarmonic h) s \<longrightarrow>
          Spectrum_get (AsHarmonic h) s = None \<and> Spectrum_remove (AsHarmonic h) s = s"
    using absent_by_key by blast
  have c8: "consistent s \<longrightarrow>
          (Spectrum_has (AsHarmonic h) s \<longleftrightarrow> (\<exists>g \<in> set (Map_values s). frequency g = frequency h))
        \<and> consistent (Spectrum_remove (AsHarmonic h) s)
        \<and> (\<forall>k g. (k, g) \<in> set s \<and> frequency g = frequency h \<longrightarrow>
              Spectrum_has (AsHarmonic h) s
            \<and> Spectrum_get (AsHarmonic h) s = Some g
            \<and> set (Spectrum_remove (AsHarmonic h) s) = set s - {(k, g)}
            \<and> (\<forall>g' \<in> set (Map_values (Spectrum_remove (AsHarmonic h) s)). frequency g' \<noteq> frequency h)
            \<and> Map_size (Spectrum_remove (AsHarmonic h) s) = Map_size s - 1)"
  proof (intro impI conjI allI)
    assume c: "consistent s"
    show "Spectrum_has (AsHarmonic h) s \<longleftrightarrow> (\<exists>g \<in> set (Map_values s). frequency g = frequency h)"
      using c by (rule has_stored)
    show "consistent (Spectrum_remove (AsHarmonic h) s)"
      using c by (rule consistent_remove)
    fix k g assume "(k, g) \<in> set s \<and> frequency g = frequency h"
    then have kg: "(k, g) \<in> set s" "frequency g = frequency h" by simp_all
    note l = lookup_stored [OF c kg]
    from l show "Spectrum_has (AsHarmonic h) s" by (rule conjunct1)
    from l show "Spectrum_get (AsHarmonic h) s = Some g" by blast
    from l show "set (Spectrum_remove (AsHarmonic h) s) = set s - {(k, g)}" by blast
    from l show "\<forall>g' \<in> set (Map_values (Spectrum_remove (AsHarmonic h) s)). frequency g' \<noteq> frequency h"
      by blast
    from l show "Map_size (Spectrum_remove (AsHarmonic h) s) = Map_size s - 1" by blast
  qed
  show ?thesis
    by (intro conjI c1 c2 c3 c4 c5 c6 c7 c8)
qed

theorem lookup_by_frequency_only_witness:
  "consistent [(''1'', \<lparr>frequency = 1, amplitude = 1 / 2, phase = 0\<rparr>)]
   \<and> Spectrum_has (AsHarmonic \<lparr>frequency = 1, amplitude = 1, phase = 1\<rparr>)
        [(''1'', \<lparr>frequency = 1, amplitude = 1 / 2, phase = 0\<rparr>)]
   \<and> Spectrum_get (AsHarmonic \<lparr>frequency = 1, amplitude = 1, phase = 1\<rparr>)
        [(''1'', \<lparr>frequency = 1, amplitude = 1 / 2, phase = 0\<rparr>)]
      = Some \<lparr>frequency = 1, amplitude = 1 / 2, phase = 0\<rparr>
   \<and> Map_size (Spectrum_remove (AsHarmonic \<lparr>frequency = 1, amplitude = 1, phase = 1\<rparr>)
        [(''1'', \<lparr>frequency = 1, amplitude = 1 / 2, phase = 0\<rparr>)]) = 0
   \<and> \<not> Spectrum_has (AsHarmonic \<lparr>frequency = 2, amplitude = 1, phase = 1\<rparr>)
        [(''1'', \<lparr>frequency = 1, amplitude = 1 / 2, phase = 0\<rparr>)]
   \<and> Spectrum_get (AsHarmonic \<lparr>frequency = 2, amplitude = 1, phase = 1\<rparr>)
        [(''1'', \<lparr>frequency = 1, amplitude = 1 / 2, phase = 0\<rparr>)] = None
   \<and> Spectrum_remove (AsHarmonic \<lparr>frequency = 2, amplitude = 1, phase = 1\<rparr>)
        [(''1'', \<lparr>frequency = 1, amplitude = 1 / 2, phase = 0\<rparr>)]
      = [(''1'', \<lparr>frequency = 1, amplitude = 1 / 2, phase = 0\<rparr>)]"
proof -
  let ?g = "\<lparr>frequency = 1, amplitude = 1 / 2, phase = 0\<rparr>"
  let ?h = "\<lparr>frequency = 1, amplitude = 1, phase = 1\<rparr>"
  let ?h2 = "\<lparr>frequency = 2, amplitude = 1, phase = 1\<rparr>"
  have c: "consistent [(''1'', ?g)]"
    by (simp add: consistent_def frequencyStr_def toFraction_one)
  have m: "(''1'', ?g) \<in> set [(''1'', ?g)]" by simp
  have f: "frequency ?g = frequency ?h" by simp
  from lookup_by_frequency_only [of ?h "[(''1'', ?g)]"] c m f
  have w: "Spectrum_has (AsHarmonic ?h) [(''1'', ?g)]
    \<and> Spectrum_get (AsHarmonic ?h) [(''1'', ?g)] = Some ?g
    \<and> Map_size (Spectrum_remove (AsHarmonic ?h) [(''1'', ?g)]) = Map_size [(''1'', ?g)] - 1"
    by blast
  have "frequencyStr ?h2 \<notin> set (Map_keys [(''1'', ?g)])"
    by (simp add: Map_keys_def frequencyStr_def toFraction_values)
  with lookup_by_frequency_only [of ?h2 "[(''1'', ?g)]"]
  have n: "\<not> Spectrum_has (AsHarmonic ?h2) [(''1'', ?g)]" by blast
  with lookup_by_frequency_only [of ?h2 "[(''1'', ?g)]"]
  have w2: "Spectrum_get (AsHarmonic ?h2) [(''1'', ?g)] = None
    \<and> Spectrum_remove (AsHarmonic ?h2) [(''1'', ?g)] = [(''1'', ?g)]"
    by blast
  from w have w': "Spectrum_has (AsHarmonic ?h) [(''1'', ?g)]"
    "Spectrum_get (AsHarmonic ?h) [(''1'', ?g)] = Some ?g"
    "Map_size (Spectrum_remove (AsHarmonic ?h) [(''1'', ?g)]) = 0"
    by (simp_all add: Map_size_def)
  from w2 have w2': "Spectrum_get (AsHarmonic ?h2) [(''1'', ?g)] = None"
    "Spectrum_remove (AsHarmonic ?h2) [(''1'', ?g)] = [(''1'', ?g)]"
    by blast+
  show ?thesis
    by (intro conjI c w' n w2')
qed

text \<open>The claim as stated fails on a spectrum whose stored harmonic was changed through the
  object that \<open>get\<close> returns: after an add at 1, \<open>s.get(1).transpose(2)\<close> leaves a harmonic
  of frequency 2 under the key of 1, and \<open>has\<close>, \<open>get\<close> and \<open>remove\<close> with a harmonic of
  frequency 2 do not find it.\<close>

theorem lookup_after_mutation:
  "mutateStored (AsFrequency 1) (Harmonic_transpose 2)
      (snd (Spectrum_add (AsFrequency 1) (Some 1) (Some 0) []))
     = Some [(''1'', \<lparr>frequency = 2, amplitude = 1, phase = 0\<rparr>)]
   \<and> \<not> Spectrum_has (AsHarmonic \<lparr>frequency = 2, amplitude = 1 / 2, phase = 0\<rparr>)
         [(''1'', \<lparr>frequency = 2, amplitude = 1, phase = 0\<rparr>)]
   \<and> Spectrum_get (AsHarmonic \<lparr>frequency = 2, amplitude = 1 / 2, phase = 0\<rparr>)
         [(''1'', \<lparr>frequency = 2, amplitude = 1, phase = 0\<rparr>)] = None
   \<and> Spectrum_remove (AsHarmonic \<lparr>frequency = 2, amplitude = 1 / 2, phase = 0\<rparr>)
         [(''1'', \<lparr>frequency = 2, amplitude = 1, phase = 0\<rparr>)]
       = [(''1'', \<lparr>frequency = 2, amplitude = 1, phase = 0\<rparr>)]"
proof -
  let ?h1 = "\<lparr>frequency = 1, amplitude = 1, phase = 0\<rparr>"
  let ?h2 = "\<lparr>frequency = 2, amplitude = 1, phase = 0\<rparr>"
  have v: "valid ?h1" by (simp add: valid_def Math_PI_def)
  have a1: "Spectrum_add (AsFrequency 1) (Some 1) (Some 0) [] = (None, addHarmonic ?h1 [])"
    using v by (rule Spectrum_add_frequency)
  have s: "addHarmonic ?h1 [] = [(''1'', ?h1)]"
    by (simp add: addHarmonic_def frequencyStr_def toFraction_one)
  have m: "mutateStored (AsFrequency 1) (Harmonic_transpose 2) [(''1'', ?h1)] = Some [(''1'', ?h2)]"
    by (simp add: Map_get_def toFraction_one Harmonic_transpose_def)
  show ?thesis
    unfolding a1 snd_conv s m
    by (simp add: frequencyStr_def toFraction_values Map_has_def Map_get_def Map_delete_def)
qed

section \<open>Properties of IntervalSet: sweep intervals\<close>

lemma sweepLoop_ok:
  assumes "1 \<le> i" and "i \<le> length rs" and "length acc = i"
    and "\<forall>j. i \<le> j \<and> j < length rs \<longrightarrow> rs ! (j - 1) \<noteq> 0"
  shows "\<exists>xs. sweepLoop rs i acc = Inr xs \<and> length xs = length rs \<and> take i xs = acc
    \<and> (\<forall>j. i \<le> j \<and> j < length rs \<longrightarrow> xs ! j = rs ! j / rs ! (j - 1))"
  using assms
proof (induction rs i acc rule: sweepLoop.induct)
  case (1 ratios i intervals)
  show ?case
  proof (cases "i < length ratios")
    case False
    with "1.prems" show ?thesis
      by (subst sweepLoop.simps) auto
  next
    case True
    let ?q = "ratios ! i / ratios ! (i - 1)"
    from True "1.prems" have nz: "ratios ! (i - 1) \<noteq> 0" by simp
    then have dv: "Fraction_div (ratios ! i) (ratios ! (i - 1)) = Inr ?q"
      by (simp add: Fraction_div_def)
    have "\<exists>xs. sweepLoop ratios (i + 1) (intervals @ [?q]) = Inr xs \<and> length xs = length ratios
        \<and> take (i + 1) xs = intervals @ [?q]
        \<and> (\<forall>j. i + 1 \<le> j \<and> j < length ratios \<longrightarrow> xs ! j = ratios ! j / ratios ! (j - 1))"
      using True "1.prems" by (intro "1.IH" [OF True dv]) auto
    then obtain xs where r: "sweepLoop ratios (i + 1) (intervals @ [?q]) = Inr xs"
      and l: "length xs = length ratios"
      and t: "take (i + 1) xs = intervals @ [?q]"
      and e: "\<forall>j. i + 1 \<le> j \<and> j < length ratios \<longrightarrow> xs ! j = ratios ! j / ratios ! (j - 1)"
      by blast
    have s: "sweepLoop ratios i intervals = Inr xs"
      using True dv r by (simp add: sweepLoop.simps [of ratios i])
    from "1.prems" have li: "length intervals = i" by simp
    have "take i (take (i + 1) xs) = take i (intervals @ [?q])"
      using t by simp
    then have t': "take i xs = intervals"
      using li by (simp add: min_def)
    have "xs ! i = take (i + 1) xs ! i" by simp
    also have "\<dots> = (intervals @ [?q]) ! i" using t by simp
    also have "\<dots> = ?q" using li by (simp add: nth_append)
    finally have xi: "xs ! i = ?q" .
    have e': "\<forall>j. i \<le> j \<and> j < length ratios \<longrightarrow> xs ! j = ratios ! j / ratios ! (j - 1)"
    proof (intro allI impI)
      fix j assume j: "i \<le> j \<and> j < length ratios"
      show "xs ! j = ratios ! j / ratios ! (j - 1)"
      proof (cases "j = i")
        case True
        with xi show ?thesis by simp
      next
        case False
        with j have "i + 1 \<le> j \<and> j < length ratios" by simp
        with e show ?thesis by blast
      qed
    qed
    from s l t' e' show ?thesis by blast
  qed
qed

text \<open>
  Claim C10 (sweep intervals), as amended: on an empty set \<open>toSweepIntervals\<close> returns
  the empty list; on a set of size \<open>n > 0\<close> whose sorted ratios, the last one apart, are
  not zero, it returns \<open>n\<close> fractions, the first \<open>1\<close> and the one at position \<open>i\<close> the
  \<open>i\<close>-th sorted ratio divided by the one before it.
\<close>

theorem sweep_intervals:
  "(Map_size m = 0 \<longrightarrow> toSweepIntervals m = Inr [])
   \<and> (0 < Map_size m \<and> 0 \<notin> set (butlast (getRatios m)) \<longrightarrow>
        (\<exists>xs. toSweepIntervals m = Inr xs \<and> length xs = Map_size m \<and> xs ! 0 = 1
           \<and> (\<forall>i. 1 \<le> i \<and> i < Map_size m \<longrightarrow> xs ! i = getRatios m ! i / getRatios m ! (i - 1))))"
proof -
  let ?rs = "getRatios m"
  have len: "length ?rs = Map_size m"
    by (simp add: getRatios_def Map_size_def Map_values_def)
  have c1: "Map_size m = 0 \<longrightarrow> toSweepIntervals m = Inr []"
    using len by (auto simp: toSweepIntervals_def Let_def)
  have c2: "\<exists>xs. toSweepIntervals m = Inr xs \<and> length xs = Map_size m \<and> xs ! 0 = 1
           \<and> (\<forall>i. 1 \<le> i \<and> i < Map_size m \<longrightarrow> xs ! i = ?rs ! i / ?rs ! (i - 1))"
    if pos: "0 < Map_size m" and nz: "0 \<notin> set (butlast ?rs)"
  proof -
    have "\<forall>j. 1 \<le> j \<and> j < length ?rs \<longrightarrow> ?rs ! (j - 1) \<noteq> 0"
    proof (intro allI impI)
      fix j assume j: "1 \<le> j \<and> j < length ?rs"
      then have "1 \<le> j" and "j < length ?rs" by simp_all
      then have "j - 1 < length (butlast ?rs)" by simp
      then have "butlast ?rs ! (j - 1) \<in> set (butlast ?rs)" by (rule nth_mem)
      moreover have "butlast ?rs ! (j - 1) = ?rs ! (j - 1)"
        using \<open>j - 1 < length (butlast ?rs)\<close> by (rule nth_butlast)
      ultimately show "?rs ! (j - 1) \<noteq> 0" using nz by metis
    qed
    then obtain xs where r: "sweepLoop ?rs 1 [1] = Inr xs" and l: "length xs = length ?rs"
      and t: "take 1 xs = [1]"
      and e: "\<forall>j. 1 \<le> j \<and> j < length ?rs \<longrightarrow> xs ! j = ?rs ! j / ?rs ! (j - 1)"
      using sweepLoop_ok [of 1 ?rs "[1]"] pos len by auto
    from t have "xs ! 0 = 1" by (cases xs) auto
    moreover have "toSweepIntervals m = Inr xs"
      using r pos len by (auto simp: toSweepIntervals_def Let_def)
    ultimately show ?thesis using l e len by auto
  qed
  show ?thesis using c1 c2 by blast
qed

theorem sweep_intervals_witness:
  "0 < Map_size (new_IntervalSet [1, 5 / 4, 3 / 2, 2])
   \<and> 0 \<notin> set (butlast (getRatios (new_IntervalSet [1, 5 / 4, 3 / 2, 2])))
   \<and> (\<exists>xs. toSweepIntervals (new_IntervalSet [1, 5 / 4, 3 / 2, 2]) = Inr xs \<and> length xs = 4
         \<and> xs ! 0 = 1 \<and> xs ! 1 = 5 / 4 \<and> xs ! 2 = 6 / 5 \<and> xs ! 3 = 4 / 3)
   \<and> Map_size (new_IntervalSet []) = 0
   \<and> toSweepIntervals (new_IntervalSet []) = Inr []"
proof -
  let ?m = "new_IntervalSet [1, 5 / 4, 3 / 2, 2]"
  have g: "getRatios ?m = [1, 5 / 4, 3 / 2, 2]"
    by (simp add: getRatios_def new_IntervalSet_def IntervalSet_add_def Map_set_update Map_values_def
        Let_def)
  have s: "Map_size ?m = 4"
    by (simp add: new_IntervalSet_def IntervalSet_add_def Map_set_update Map_size_def Let_def)
  have e: "Map_size (new_IntervalSet []) = 0"
    by (simp add: new_IntervalSet_def Map_size_def)
  have p: "0 < Map_size ?m" using s by simp
  have z: "0 \<notin> set (butlast (getRatios ?m))" using g by simp
  from sweep_intervals [of ?m] p z obtain xs where x: "toSweepIntervals ?m = Inr xs"
    and l: "length xs = Map_size ?m" and x0: "xs ! 0 = 1"
    and xi: "\<forall>i. 1 \<le> i \<and> i < Map_size ?m \<longrightarrow> xs ! i = getRatios ?m ! i / getRatios ?m ! (i - 1)"
    by blast
  from xi have "xs ! 1 = getRatios ?m ! 1 / getRatios ?m ! 0"
    and "xs ! 2 = getRatios ?m ! 2 / getRatios ?m ! 1"
    and "xs ! 3 = getRatios ?m ! 3 / getRatios ?m ! 2"
    unfolding s by force+
  then have "xs ! 1 = 5 / 4" "xs ! 2 = 6 / 5" "xs ! 3 = 4 / 3"
    unfolding g by simp_all
  moreover from sweep_intervals [of "new_IntervalSet []"] e
  have "toSweepIntervals (new_IntervalSet []) = Inr []" by blast
  ultimately show ?thesis using x l x0 p z e unfolding s by blast
qed

text \<open>The claim as stated fails on a set that holds zero below another ratio: the
  division by the previous ratio throws.\<close>

theorem sweep_intervals_zero_divisor:
  "toSweepIntervals (new_IntervalSet [0, 1]) = Inl DivisionByZero"
proof -
  have g: "getRatios (new_IntervalSet [0, 1]) = [0, 1]"
    by (simp add: getRatios_def new_IntervalSet_def IntervalSet_add_def Map_set_update Map_values_def
        Let_def)
  have "sweepLoop [0, 1] 1 [1] = Inl DivisionByZero"
    by (subst sweepLoop.simps) (simp add: Fraction_div_def)
  with g show ?thesis
    by (simp add: toSweepIntervals_def)
qed

section \<open>Properties of rounding to binary64\<close>

lemma roundHalfEven_of_int [simp]: "roundHalfEven (of_int m) = m"
  by (simp add: roundHalfEven_def)

lemma roundHalfEven_ge_floor: "\<lfloor>x\<rfloor> \<le> roundHalfEven x"
  by (simp add: roundHalfEven_def Let_def)

lemma roundHalfEven_lower:
  assumes "of_int m \<le> x"
  shows "m \<le> roundHalfEven x"
proof -
  from assms have "m \<le> \<lfloor>x\<rfloor>" by (simp add: le_floor_iff)
  with roundHalfEven_ge_floor [of x] show ?thesis by linarith
qed

lemma roundHalfEven_le_ceiling: "roundHalfEven x \<le> \<lceil>x\<rceil>"
proof (cases "x = of_int \<lfloor>x\<rfloor>")
  case True
  then have "roundHalfEven x = \<lfloor>x\<rfloor>"
    by (metis roundHalfEven_of_int)
  then show ?thesis by simp
next
  case False
  then have "\<lceil>x\<rceil> = \<lfloor>x\<rfloor> + 1"
    by (metis ceiling_altdef)
  then show ?thesis by (simp add: roundHalfEven_def Let_def)
qed

lemma roundHalfEven_upper: "x \<le> of_int m \<Longrightarrow> roundHalfEven x \<le> m"
  using roundHalfEven_le_ceiling [of x] by (meson ceiling_le order_trans)

lemma roundHalfEven_above_half:
  assumes "of_int m + 1 / 2 < x"
  shows "m + 1 \<le> roundHalfEven x"
proof (cases "m + 1 \<le> \<lfloor>x\<rfloor>")
  case True
  then show ?thesis using roundHalfEven_ge_floor [of x] by linarith
next
  case False
  moreover have "m \<le> \<lfloor>x\<rfloor>" using assms by (simp add: le_floor_iff)
  ultimately have f: "\<lfloor>x\<rfloor> = m" by linarith
  with assms have "1 / 2 < x - of_int \<lfloor>x\<rfloor>" by simp
  then show ?thesis using f by (simp add: roundHalfEven_def Let_def)
qed

lemma powi2_le_D: "(2::rat) powi a \<le> 2 powi b \<Longrightarrow> a \<le> b"
  using power_int_strict_increasing [of b a "2::rat"] by (cases "a \<le> b") auto

lemma powi2_less_D: "(2::rat) powi a < 2 powi b \<Longrightarrow> a < b"
  using power_int_increasing [of b a "2::rat"] by (cases "a < b") auto

lemma ilog2_bounds:
  assumes "0 < x"
  shows "2 powi (ilog2 x) \<le> x \<and> x < 2 powi (ilog2 x + 1)"
proof -
  obtain n d where q: "quotient_of x = (n, d)" by (cases "quotient_of x")
  then have d: "0 < d" and x: "x = of_int n / of_int d"
    by (simp_all add: quotient_of_denom_pos quotient_of_div)
  with assms have n: "0 < n" by (simp add: zero_less_divide_iff)
  let ?k = "bitlen n - bitlen d"
  have bn: "1 \<le> bitlen n" and bd: "1 \<le> bitlen d"
    using n d bitlen_eq_zero_iff [of n] bitlen_eq_zero_iff [of d] bitlen_nonneg [of n] bitlen_nonneg [of d]
    by linarith+
  from bitlen_bounds [OF n] have n_up: "n < 2 ^ nat (bitlen n)" by simp
  from bitlen_bounds [OF d] have d_lo: "2 ^ nat (bitlen d - 1) \<le> d" by simp
  have "(of_int n :: rat) < of_int (2 ^ nat (bitlen n))" using n_up by (simp only: of_int_less_iff)
  then have n_up': "(of_int n :: rat) < 2 powi (bitlen n)"
    using bn by (simp add: power_int_def)
  have "(of_int (2 ^ nat (bitlen d - 1)) :: rat) \<le> of_int d" using d_lo by (simp only: of_int_le_iff)
  then have d_lo': "(2 powi (bitlen d - 1) :: rat) \<le> of_int d"
    using bd by (simp add: power_int_def)
  have "x * of_int d = of_int n" using x d by simp
  also have "\<dots> < 2 powi (bitlen n)" by (rule n_up')
  also have "(2 powi (bitlen n) :: rat) = 2 powi (?k + 1) * 2 powi (bitlen d - 1)"
    by (simp add: power_int_add [symmetric])
  also have "\<dots> \<le> 2 powi (?k + 1) * of_int d"
    using d_lo' by (simp add: mult_left_mono)
  finally have up: "x < 2 powi (?k + 1)" using d by simp
  show ?thesis
  proof (cases "2 powi ?k \<le> x")
    case True
    then have "ilog2 x = ?k" using q by (simp add: ilog2_def)
    with True up show ?thesis by simp
  next
    case False
    then have i: "ilog2 x = ?k - 1" using q by (simp add: ilog2_def)
    from bitlen_bounds [OF n] have "2 ^ nat (bitlen n - 1) \<le> n" by simp
    then have "(of_int (2 ^ nat (bitlen n - 1)) :: rat) \<le> of_int n" by (simp only: of_int_le_iff)
    then have n_lo: "(2 powi (bitlen n - 1) :: rat) \<le> of_int n"
      using bn by (simp add: power_int_def)
    from bitlen_bounds [OF d] have "d < 2 ^ nat (bitlen d)" by simp
    then have "(of_int d :: rat) < of_int (2 ^ nat (bitlen d))" by (simp only: of_int_less_iff)
    then have d_up: "(of_int d :: rat) < 2 powi (bitlen d)"
      using bd by (simp add: power_int_def)
    have "2 powi (?k - 1) * of_int d \<le> 2 powi (?k - 1) * (2 powi (bitlen d) :: rat)"
      using d_up by (simp add: mult_left_mono)
    also have "\<dots> = 2 powi (bitlen n - 1)"
      by (simp add: power_int_add [symmetric])
    also have "\<dots> \<le> of_int n" by (rule n_lo)
    also have "\<dots> = x * of_int d" using x d by simp
    finally have "2 powi (?k - 1) \<le> x" using d by simp
    with i False show ?thesis by simp
  qed
qed


lemma round64_pos_eq:
  assumes "0 < x"
  shows "round64 x = of_int (roundHalfEven (x / 2 powi (ilog2 x - 52))) * 2 powi (ilog2 x - 52)"
  using assms by (simp add: round64_def Let_def)

text \<open>A value that is an integer multiple of its unit in the last place is not rounded.\<close>

lemma round64_exact:
  assumes "x / 2 powi (ilog2 \<bar>x\<bar> - 52) = of_int j"
  shows "round64 x = x"
proof (cases "x = 0")
  case True
  then show ?thesis by (simp add: round64_def)
next
  case False
  have u: "(2 powi (ilog2 \<bar>x\<bar> - 52) :: rat) \<noteq> 0" by simp
  from False have "round64 x = of_int (roundHalfEven (x / 2 powi (ilog2 \<bar>x\<bar> - 52))) * 2 powi (ilog2 \<bar>x\<bar> - 52)"
    by (simp add: round64_def Let_def)
  also have "\<dots> = x / 2 powi (ilog2 \<bar>x\<bar> - 52) * 2 powi (ilog2 \<bar>x\<bar> - 52)"
    by (simp only: assms roundHalfEven_of_int)
  also have "\<dots> = x" using u by simp
  finally show ?thesis .
qed

lemma round64_of_int_safe:
  assumes "\<bar>n\<bar> \<le> 2 ^ 53"
  shows "round64 (of_int n) = of_int n"
proof (cases "n = 0")
  case True
  then show ?thesis by (simp add: round64_def)
next
  case False
  let ?x = "of_int n :: rat"
  let ?k = "ilog2 \<bar>?x\<bar>"
  have pos: "0 < \<bar>?x\<bar>" using False by simp
  from ilog2_bounds [OF pos] have lo: "2 powi ?k \<le> \<bar>?x\<bar>" and up: "\<bar>?x\<bar> < 2 powi (?k + 1)"
    by simp_all
  have a: "\<bar>?x\<bar> = of_int \<bar>n\<bar>" by simp
  have "\<bar>?x\<bar> \<le> 2 powi 53"
    unfolding a using assms by (metis of_int_le_iff of_int_numeral of_int_power power_int_numeral)
  with lo have "(2 powi ?k :: rat) \<le> 2 powi 53" by (rule order_trans)
  then have k53: "?k \<le> 53" by (rule powi2_le_D)
  have "\<exists>j. ?x / 2 powi (?k - 52) = of_int j"
  proof (cases "?k \<le> 52")
    case True
    then have "?x / 2 powi (?k - 52) = ?x * 2 powi (52 - ?k)"
      by (simp add: power_int_diff field_simps)
    also have "\<dots> = ?x * 2 ^ nat (52 - ?k)"
      using True by (simp add: power_int_def)
    also have "\<dots> = of_int (n * 2 ^ nat (52 - ?k))" by simp
    finally show ?thesis by blast
  next
    case False
    with k53 have k: "?k = 53" by linarith
    with lo have "2 powi 53 \<le> \<bar>?x\<bar>" by simp
    with \<open>\<bar>?x\<bar> \<le> 2 powi 53\<close> have "\<bar>?x\<bar> = 2 powi 53" by (rule antisym)
    then have "?x = 2 ^ 53 \<or> ?x = - (2 ^ 53)" by (simp add: abs_if split: if_splits)
    then have "?x / 2 powi (?k - 52) = of_int (2 ^ 52) \<or> ?x / 2 powi (?k - 52) = of_int (- (2 ^ 52))"
      unfolding k by auto
    then show ?thesis by blast
  qed
  then obtain j where "?x / 2 powi (?k - 52) = of_int j" ..
  then show ?thesis by (rule round64_exact)
qed

lemma valueOf_safe: "safe r \<Longrightarrow> valueOf r = round64 r"
proof -
  assume s: "safe r"
  obtain n d where q: "quotient_of r = (n, d)" by (cases "quotient_of r")
  then have d: "0 < d" and r: "r = of_int n / of_int d"
    by (simp_all add: quotient_of_denom_pos quotient_of_div)
  from s q have "\<bar>n\<bar> \<le> 2 ^ 53" "\<bar>d\<bar> \<le> 2 ^ 53"
    using d by (simp_all add: safe_def)
  then have "round64 (of_int n) = of_int n" "round64 (of_int d) = of_int d"
    by (simp_all add: round64_of_int_safe)
  with q r show ?thesis by (simp add: valueOf_def)
qed

lemma round64_binade:
  assumes "0 < x"
  shows "2 powi (ilog2 x) \<le> round64 x \<and> round64 x \<le> 2 powi (ilog2 x + 1)"
proof -
  let ?k = "ilog2 x"
  let ?u = "2 powi (?k - 52) :: rat"
  let ?y = "x / ?u"
  have u: "0 < ?u" by simp
  from ilog2_bounds [OF assms] have lo: "2 powi ?k \<le> x" and up: "x < 2 powi (?k + 1)"
    by simp_all
  have r: "round64 x = of_int (roundHalfEven ?y) * ?u"
    using assms by (rule round64_pos_eq)
  have k1: "(2 powi ?k :: rat) = of_int (2 ^ 52) * ?u"
    by (simp add: power_int_diff)
  have k2: "(2 powi (?k + 1) :: rat) = of_int (2 ^ 53) * ?u"
    by (simp add: power_int_diff power_int_add)
  have "of_int (2 ^ 52) * ?u \<le> x" using lo k1 by simp
  then have "of_int (2 ^ 52) \<le> ?y" using u by (simp add: pos_le_divide_eq)
  then have "2 ^ 52 \<le> roundHalfEven ?y" by (rule roundHalfEven_lower)
  then have "(of_int (2 ^ 52) :: rat) \<le> of_int (roundHalfEven ?y)" by (simp only: of_int_le_iff)
  then have "of_int (2 ^ 52) * ?u \<le> of_int (roundHalfEven ?y) * ?u"
    using u by (simp only: mult_le_cancel_right_pos)
  then have c1: "2 powi ?k \<le> round64 x" using k1 r by simp
  have "x \<le> of_int (2 ^ 53) * ?u" using up k2 by simp
  then have "?y \<le> of_int (2 ^ 53)" using u by (simp add: pos_divide_le_eq)
  then have "roundHalfEven ?y \<le> 2 ^ 53" by (rule roundHalfEven_upper)
  then have "(of_int (roundHalfEven ?y) :: rat) \<le> of_int (2 ^ 53)" by (simp only: of_int_le_iff)
  then have "of_int (roundHalfEven ?y) * ?u \<le> of_int (2 ^ 53) * ?u"
    using u by (simp only: mult_le_cancel_right_pos)
  then have c2: "round64 x \<le> 2 powi (?k + 1)" using k2 r by simp
  from c1 c2 show ?thesis ..
qed

lemma round64_pos: "0 < x \<Longrightarrow> 0 < round64 x"
proof -
  assume x: "0 < x"
  have "(0::rat) < 2 powi (ilog2 x)" by simp
  also have "\<dots> \<le> round64 x" using round64_binade [OF x] by simp
  finally show ?thesis .
qed

lemma round64_one: "round64 1 = 1"
  using round64_of_int_safe [of 1] by simp

lemma safe_quotient:
  assumes "safe r" and "0 < r"
  obtains n d where "r = of_int n / of_int d" "0 < n" "n \<le> 2 ^ 53" "0 < d" "d \<le> 2 ^ 53"
proof -
  obtain n d where q: "quotient_of r = (n, d)" by (cases "quotient_of r")
  then have d: "0 < d" and r: "r = of_int n / of_int d"
    by (simp_all add: quotient_of_denom_pos quotient_of_div)
  with assms(2) have n: "0 < n" by (simp add: zero_less_divide_iff)
  from assms(1) q n have b: "n \<le> 2 ^ 53" "d \<le> 2 ^ 53" by (simp_all add: safe_def)
  show ?thesis by (rule that [OF r n b(1) d b(2)])
qed

lemma round64_gt_one:
  assumes "safe r" and "1 < r"
  shows "1 < round64 r"
proof -
  have pos: "0 < r" using assms(2) by simp
  let ?k = "ilog2 r"
  from ilog2_bounds [OF pos] have lo: "2 powi ?k \<le> r" and up: "r < 2 powi (?k + 1)"
    by simp_all
  have "(2::rat) powi 0 < 2 powi (?k + 1)" using assms(2) up by simp
  then have "0 < ?k + 1" by (rule powi2_less_D)
  then have k0: "0 \<le> ?k" by simp
  show ?thesis
  proof (cases "?k = 0")
    case False
    with k0 have "1 \<le> ?k" by simp
    then have "(2::rat) powi 1 \<le> 2 powi ?k" by (intro power_int_increasing) simp_all
    also have "\<dots> \<le> round64 r" using round64_binade [OF pos] by simp
    finally show ?thesis by simp
  next
    case True
    obtain n d where r: "r = of_int n / of_int d" and n: "0 < n" "n \<le> 2 ^ 53"
      and d: "0 < d" "d \<le> 2 ^ 53"
      using assms(1) pos by (rule safe_quotient)
    from assms(2) r d have "d < n" by (simp add: pos_less_divide_eq)
    with n have i: "2 * d * 2 ^ 52 + d < 2 * n * 2 ^ 52" by simp
    have "(of_int (2 * d * 2 ^ 52 + d) :: rat) < of_int (2 * n * 2 ^ 52)"
      using i by (simp only: of_int_less_iff)
    then have "(of_int (2 ^ 52) + 1 / 2) * of_int d < (of_int n :: rat) * 2 ^ 52"
      by (simp add: algebra_simps)
    then have "of_int (2 ^ 52) + 1 / 2 < (of_int n :: rat) * 2 ^ 52 / of_int d"
      using d by (simp add: pos_less_divide_eq)
    also have "\<dots> = r * 2 ^ 52"
      unfolding r by simp
    also have "\<dots> = r / 2 powi (?k - 52)"
      unfolding True by (simp add: power_int_minus_divide)
    finally have "2 ^ 52 + 1 \<le> roundHalfEven (r / 2 powi (?k - 52))"
      by (rule roundHalfEven_above_half)
    then have "(of_int (2 ^ 52 + 1) :: rat) \<le> of_int (roundHalfEven (r / 2 powi (?k - 52)))"
      by (simp only: of_int_le_iff)
    then have "of_int (2 ^ 52 + 1) * 2 powi (?k - 52)
        \<le> of_int (roundHalfEven (r / 2 powi (?k - 52))) * (2 powi (?k - 52) :: rat)"
      by (simp only: mult_le_cancel_right_pos zero_less_power_int zero_less_numeral)
    also have "\<dots> = round64 r" using pos by (simp add: round64_pos_eq)
    finally have "of_int (2 ^ 52 + 1) * 2 powi (0 - 52) \<le> round64 r"
      unfolding True .
    moreover have "(1::rat) < of_int (2 ^ 52 + 1) * 2 powi (0 - 52)"
      by (simp add: power_int_minus_divide)
    ultimately show ?thesis by simp
  qed
qed

lemma round64_lt_one:
  assumes "safe r" and "0 < r" and "r < 1"
  shows "round64 r < 1"
proof -
  have pos: "0 < r" by (rule assms(2))
  let ?k = "ilog2 r"
  from ilog2_bounds [OF pos] have lo: "2 powi ?k \<le> r" and up: "r < 2 powi (?k + 1)"
    by simp_all
  have "(2::rat) powi ?k < 2 powi 0" using assms(3) lo by simp
  then have k0: "?k < 0" by (rule powi2_less_D)
  show ?thesis
  proof (cases "?k = - 1")
    case False
    with k0 have "?k + 1 \<le> - 1" by simp
    then have "(2::rat) powi (?k + 1) \<le> 2 powi (- 1)" by (intro power_int_increasing) simp_all
    with round64_binade [OF pos] have "round64 r \<le> 2 powi (- 1)" by simp
    also have "(2::rat) powi (- 1) < 1" by (simp add: power_int_minus_divide)
    finally show ?thesis .
  next
    case True
    obtain n d where r: "r = of_int n / of_int d" and n: "0 < n" "n \<le> 2 ^ 53"
      and d: "0 < d" "d \<le> 2 ^ 53"
      using assms(1) pos by (rule safe_quotient)
    from assms(3) r d have "n < d" by (simp add: pos_divide_less_eq)
    with d have i: "n * 2 ^ 53 \<le> (2 ^ 53 - 1) * d" by (simp add: algebra_simps)
    have "(of_int (n * 2 ^ 53) :: rat) \<le> of_int ((2 ^ 53 - 1) * d)"
      using i by (simp only: of_int_le_iff)
    then have "(of_int n :: rat) * 2 ^ 53 \<le> of_int (2 ^ 53 - 1) * of_int d"
      by simp
    then have "(of_int n :: rat) * 2 ^ 53 / of_int d \<le> of_int (2 ^ 53 - 1)"
      using d by (simp add: pos_divide_le_eq)
    moreover have "(of_int n :: rat) * 2 ^ 53 / of_int d = r * 2 ^ 53"
      unfolding r by simp
    moreover have "r * 2 ^ 53 = r / 2 powi (?k - 52)"
      unfolding True by (simp add: power_int_minus_divide)
    ultimately have "r / 2 powi (?k - 52) \<le> of_int (2 ^ 53 - 1)" by simp
    then have "roundHalfEven (r / 2 powi (?k - 52)) \<le> 2 ^ 53 - 1"
      by (rule roundHalfEven_upper)
    then have "(of_int (roundHalfEven (r / 2 powi (?k - 52))) :: rat) \<le> of_int (2 ^ 53 - 1)"
      by (simp only: of_int_le_iff)
    then have "of_int (roundHalfEven (r / 2 powi (?k - 52))) * (2 powi (?k - 52) :: rat)
        \<le> of_int (2 ^ 53 - 1) * 2 powi (?k - 52)"
      by (simp only: mult_le_cancel_right_pos zero_less_power_int zero_less_numeral)
    moreover have "of_int (roundHalfEven (r / 2 powi (?k - 52))) * (2 powi (?k - 52) :: rat) = round64 r"
      using pos by (simp add: round64_pos_eq)
    ultimately have "round64 r \<le> of_int (2 ^ 53 - 1) * 2 powi (- 1 - 52)"
      unfolding True by simp
    moreover have "of_int (2 ^ 53 - 1) * 2 powi (- 1 - 52) < (1::rat)"
      by (simp add: power_int_minus_divide)
    ultimately show ?thesis by simp
  qed
qed

text \<open>For a positive safe ratio the number \<open>valueOf\<close> compares with \<open>1\<close> and \<open>0\<close> as
  the ratio itself does.\<close>

lemma valueOf_compare:
  assumes "safe r" and "0 < r"
  shows "0 < valueOf r \<and> (valueOf r = 1 \<longleftrightarrow> r = 1) \<and> (1 < valueOf r \<longleftrightarrow> 1 < r)"
proof -
  have v: "valueOf r = round64 r" using assms(1) by (rule valueOf_safe)
  have p: "0 < round64 r" using assms(2) by (rule round64_pos)
  consider "r < 1" | "r = 1" | "1 < r" by linarith
  then show ?thesis
  proof cases
    case 1
    with assms have "round64 r < 1" by (intro round64_lt_one)
    with 1 p v show ?thesis by simp
  next
    case 2
    with p v show ?thesis by (simp add: round64_one)
  next
    case 3
    with assms have "1 < round64 r" by (intro round64_gt_one)
    with 3 p v show ?thesis by simp
  qed
qed

section \<open>Properties of Spectrum: transpose\<close>

lemma wellFormed_entries:
  assumes "wellFormed s" and "e \<in> set s"
  shows "e = entryOf (snd e) \<and> valid (snd e)"
  using assms by (cases e) (auto simp: wellFormed_iff consistent_iff entryOf_def)

lemma wellFormed_distinct: "wellFormed s \<Longrightarrow> distinct (map fst s)"
  by (simp add: wellFormed_iff consistent_iff)

lemma wellFormedI:
  assumes "distinct (map fst s)" and "\<And>e. e \<in> set s \<Longrightarrow> e = entryOf (snd e) \<and> valid (snd e)"
  shows "wellFormed s"
  unfolding wellFormed_iff consistent_iff
proof (intro conjI ballI)
  show "distinct (map fst s)" by (rule assms(1))
next
  fix e assume "e \<in> set s"
  from assms(2) [OF this] show "case e of (k, h) \<Rightarrow> k = frequencyStr h"
    by (cases e) (simp add: entryOf_def)
next
  fix e assume "e \<in> set s"
  from assms(2) [OF this] show "case e of (k, h) \<Rightarrow> valid h"
    by (cases e) (simp add: entryOf_def)
qed

lemma frequency_transpose [simp]: "frequency (Harmonic_transpose r h) = frequency h * r"
  by (simp add: Harmonic_transpose_def)

lemma valid_transpose: "valid h \<Longrightarrow> 0 < r \<Longrightarrow> valid (Harmonic_transpose r h)"
  by (simp add: valid_def Harmonic_transpose_def)

lemma entryOf_eq_iff [simp]: "entryOf g = entryOf h \<longleftrightarrow> g = h"
  by (auto simp: entryOf_def)

lemma fst_entryOf [simp]: "fst (entryOf h) = frequencyStr h"
  by (simp add: entryOf_def)

lemma snd_entryOf [simp]: "snd (entryOf h) = h"
  by (simp add: entryOf_def)

lemma transposeHarmonic_step:
  assumes wf: "wellFormed s" and st: "entryOf h \<in> set s" and r: "0 < r"
    and fresh: "frequencyStr (Harmonic_transpose r h) \<notin> fst ` set s"
  shows "\<exists>s'. transposeHarmonic (AsHarmonic h) r s = (None, s') \<and> wellFormed s'
    \<and> set s' = (set s - {entryOf h}) \<union> {entryOf (Harmonic_transpose r h)}"
proof -
  let ?h' = "Harmonic_transpose r h"
  let ?s' = "Map_set (frequencyStr ?h') ?h' (Map_delete (frequencyStr h) s)"
  have d: "distinct (map fst s)" using wf by (rule wellFormed_distinct)
  have v: "valid h" using wellFormed_entries [OF wf st] by simp
  have g: "Spectrum_get (AsHarmonic h) s = Some h"
    using st d by (simp add: Map_get_Some_iff entryOf_def)
  have t: "Harmonic_toTransposed r h = Inr ?h'"
    using v by (simp add: Harmonic_toTransposed_def Harmonic_clone_valid)
  have "frequencyStr h \<in> fst ` set s"
    using st by (metis fst_entryOf image_eqI)
  with fresh have ne: "frequencyStr h \<noteq> frequencyStr ?h'" by metis
  have run: "transposeHarmonic (AsHarmonic h) r s = (None, ?s')"
    using g t ne by (simp add: transposeHarmonic_def del: Spectrum_get.simps)
  have only: "e = (frequencyStr h, h)" if "e \<in> set s" "fst e = frequencyStr h" for e
  proof -
    obtain a b where e: "e = (a, b)" by (cases e)
    with that have "(frequencyStr h, b) \<in> set s" by simp
    moreover have "(frequencyStr h, h) \<in> set s" using st by (simp add: entryOf_def)
    ultimately have "h = b" using d by (metis eq_key_imp_eq_value)
    with that e show ?thesis by simp
  qed
  have del: "set (Map_delete (frequencyStr h) s) = set s - {entryOf h}"
    using filter_other_keys [of s "frequencyStr h" h, OF only]
    by (simp add: Map_delete_filter entryOf_def)
  have dd: "distinct (map fst (Map_delete (frequencyStr h) s))"
    using d by (rule distinct_Map_delete)
  have "{e \<in> set s - {entryOf h}. fst e \<noteq> frequencyStr ?h'} = set s - {entryOf h}"
    using fresh by force
  then have set': "set ?s' = (set s - {entryOf h}) \<union> {entryOf ?h'}"
    using set_Map_set [OF dd, of "frequencyStr ?h'" ?h'] del by (simp add: entryOf_def)
  have "wellFormed ?s'"
  proof (rule wellFormedI)
    show "distinct (map fst ?s')" using dd by (rule distinct_Map_set)
  next
    fix e assume "e \<in> set ?s'"
    with set' have "e \<in> set s \<or> e = entryOf ?h'" by blast
    then show "e = entryOf (snd e) \<and> valid (snd e)"
    proof
      assume "e \<in> set s"
      with wf show ?thesis by (rule wellFormed_entries)
    next
      assume "e = entryOf ?h'"
      with v r show ?thesis by (simp add: valid_transpose)
    qed
  qed
  with run set' show ?thesis by blast
qed

lemma transposeEach_moves:
  assumes "wellFormed s" and "0 < r" and "r \<noteq> 1"
    and "distinct (map frequency hs)"
    and "\<forall>h \<in> set hs. entryOf h \<in> set s"
    and "\<forall>h \<in> set hs. \<forall>e \<in> set s. snd e \<notin> set hs \<longrightarrow> frequency (snd e) \<noteq> frequency h * r"
    and "sorted_wrt (\<lambda>h h2. frequency h * r \<noteq> frequency h2) hs"
  shows "\<exists>s'. transposeEach r hs s = (None, s') \<and> wellFormed s'
    \<and> set s' = {e \<in> set s. snd e \<notin> set hs} \<union> (\<lambda>h. entryOf (Harmonic_transpose r h)) ` set hs"
  using assms
proof (induction hs arbitrary: s)
  case Nil
  then show ?case by simp
next
  case (Cons h hs)
  let ?h' = "Harmonic_transpose r h"
  note wf = \<open>wellFormed s\<close>
  have st: "entryOf h \<in> set s" using Cons.prems(5) by simp
  have v: "valid h" using wellFormed_entries [OF wf st] by simp
  then have fpos: "0 < frequency h" by (simp add: valid_def)
  have later: "\<forall>h2 \<in> set hs. frequency h * r \<noteq> frequency h2"
    using Cons.prems(7) by simp
  have hfresh: "h \<notin> set hs" using Cons.prems(4) by auto
  have "frequency h \<notin> frequency ` set hs"
    using Cons.prems(4) by simp
  then have dfreq: "\<forall>h2 \<in> set hs. frequency h2 \<noteq> frequency h"
    by (metis image_eqI)
  have fresh: "frequencyStr ?h' \<notin> fst ` set s"
  proof
    assume "frequencyStr ?h' \<in> fst ` set s"
    then obtain e where e: "e \<in> set s" and k: "fst e = frequencyStr ?h'" by auto
    from wellFormed_entries [OF wf e] have "fst e = frequencyStr (snd e)"
      by (metis fst_entryOf)
    with k have fe: "frequency (snd e) = frequency h * r"
      by (simp add: frequencyStr_def)
    show False
    proof (cases "snd e \<in> set (h # hs)")
      case False
      with Cons.prems(6) e fe show False by auto
    next
      case True
      then have "snd e = h \<or> snd e \<in> set hs" by simp
      then show False
      proof
        assume "snd e = h"
        with fe have "frequency h * r = frequency h * 1" by simp
        with fpos have "r = 1" by (simp only: mult_cancel_left) simp
        with \<open>r \<noteq> 1\<close> show False by simp
      next
        assume "snd e \<in> set hs"
        with later fe show False by metis
      qed
    qed
  qed
  from transposeHarmonic_step [OF wf st \<open>0 < r\<close> fresh]
  obtain s1 where run1: "transposeHarmonic (AsHarmonic h) r s = (None, s1)"
    and wf1: "wellFormed s1"
    and set1: "set s1 = (set s - {entryOf h}) \<union> {entryOf ?h'}"
    by blast
  have h'_not_todo: "?h' \<notin> set hs"
  proof
    assume "?h' \<in> set hs"
    with later have "frequency h * r \<noteq> frequency ?h'" by blast
    then show False by simp
  qed
  have p5: "\<forall>h2 \<in> set hs. entryOf h2 \<in> set s1"
  proof
    fix h2 assume h2: "h2 \<in> set hs"
    with Cons.prems(5) have "entryOf h2 \<in> set s" by simp
    moreover from h2 hfresh have "h2 \<noteq> h" by auto
    ultimately show "entryOf h2 \<in> set s1" using set1 by simp
  qed
  have p6: "\<forall>h2 \<in> set hs. \<forall>e \<in> set s1. snd e \<notin> set hs \<longrightarrow> frequency (snd e) \<noteq> frequency h2 * r"
  proof (intro ballI impI)
    fix h2 e assume h2: "h2 \<in> set hs" and e: "e \<in> set s1" and n: "snd e \<notin> set hs"
    from e set1 have "(e \<in> set s \<and> e \<noteq> entryOf h) \<or> e = entryOf ?h'" by blast
    then show "frequency (snd e) \<noteq> frequency h2 * r"
    proof
      assume "e = entryOf ?h'"
      moreover from dfreq h2 have "frequency h2 \<noteq> frequency h" by simp
      ultimately show ?thesis using \<open>0 < r\<close> by simp
    next
      assume a: "e \<in> set s \<and> e \<noteq> entryOf h"
      with wellFormed_entries [OF wf] have "e = entryOf (snd e)" by blast
      with a have "snd e \<noteq> h" by metis
      with n have "snd e \<notin> set (h # hs)" by simp
      with Cons.prems(6) a h2 show ?thesis by simp
    qed
  qed
  have "\<exists>s'. transposeEach r hs s1 = (None, s') \<and> wellFormed s'
    \<and> set s' = {e \<in> set s1. snd e \<notin> set hs} \<union> (\<lambda>h. entryOf (Harmonic_transpose r h)) ` set hs"
  proof (rule Cons.IH [OF wf1 \<open>0 < r\<close> \<open>r \<noteq> 1\<close> _ p5 p6])
    show "distinct (map frequency hs)" using Cons.prems(4) by simp
    show "sorted_wrt (\<lambda>h h2. frequency h * r \<noteq> frequency h2) hs" using Cons.prems(7) by simp
  qed
  then obtain s' where run: "transposeEach r hs s1 = (None, s')" and wf': "wellFormed s'"
    and set': "set s' = {e \<in> set s1. snd e \<notin> set hs} \<union> (\<lambda>h. entryOf (Harmonic_transpose r h)) ` set hs"
    by blast
  have keep: "{e \<in> set s1. snd e \<notin> set hs} = {e \<in> set s. snd e \<notin> set (h # hs)} \<union> {entryOf ?h'}"
  proof (rule set_eqI)
    fix e
    show "e \<in> {e \<in> set s1. snd e \<notin> set hs} \<longleftrightarrow>
        e \<in> {e \<in> set s. snd e \<notin> set (h # hs)} \<union> {entryOf ?h'}"
    proof (cases "e = entryOf ?h'")
      case True
      with set1 h'_not_todo show ?thesis by simp
    next
      case False
      have "e \<noteq> entryOf h \<longleftrightarrow> snd e \<noteq> h" if "e \<in> set s"
        using wellFormed_entries [OF wf that] by (metis snd_entryOf)
      with False set1 show ?thesis by auto
    qed
  qed
  have "transposeEach r (h # hs) s = (None, s')"
    using run1 run by simp
  moreover have "set s' = {e \<in> set s. snd e \<notin> set (h # hs)}
      \<union> (\<lambda>h. entryOf (Harmonic_transpose r h)) ` set (h # hs)"
    unfolding set' keep by auto
  ultimately show ?case using wf' by blast
qed

lemma stored_entries:
  assumes "wellFormed s"
  shows "set s = entryOf ` set (Map_values s)"
proof (rule set_eqI)
  fix e
  show "e \<in> set s \<longleftrightarrow> e \<in> entryOf ` set (Map_values s)"
  proof
    assume e: "e \<in> set s"
    then have "snd e \<in> set (Map_values s)" by (simp add: Map_values_def)
    moreover have "e = entryOf (snd e)" using wellFormed_entries [OF assms e] by simp
    ultimately show "e \<in> entryOf ` set (Map_values s)" by (rule rev_image_eqI)
  next
    assume "e \<in> entryOf ` set (Map_values s)"
    then obtain h where h: "h \<in> set (Map_values s)" and e: "e = entryOf h" by blast
    from h obtain e' where e': "e' \<in> set s" and "snd e' = h" by (auto simp: Map_values_def)
    with wellFormed_entries [OF assms e'] have "e' = entryOf h" by simp
    with e e' show "e \<in> set s" by simp
  qed
qed

lemma wellFormed_consistent: "wellFormed s \<Longrightarrow> consistent s"
  by (simp add: wellFormed_iff)

lemma transpose_one [simp]: "Harmonic_transpose 1 h = h"
  by (simp add: Harmonic_transpose_def)

lemma transpose_twice:
  "Harmonic_transpose q (Harmonic_transpose r h) = Harmonic_transpose (r * q) h"
  by (simp add: Harmonic_transpose_def mult.assoc)

lemma transpose_inj: "r \<noteq> 0 \<Longrightarrow> inj (Harmonic_transpose r)"
proof (rule inj_on_inverseI)
  fix h assume "r \<noteq> 0"
  then show "Harmonic_transpose (1 / r) (Harmonic_transpose r h) = h"
    by (simp add: transpose_twice)
qed

text \<open>The whole of \<open>transpose\<close>, stated on the set of entries.\<close>

lemma Spectrum_transpose_moves:
  assumes wf: "wellFormed s" and r: "0 < r" and safe: "safe r"
  shows "\<exists>s'. Spectrum_transpose r s = (None, s') \<and> wellFormed s'
    \<and> set s' = (\<lambda>h. entryOf (Harmonic_transpose r h)) ` set (Map_values s)"
proof (cases "r = 1")
  case True
  have "valueOf 1 = 1" using valueOf_compare [of 1] by (simp add: safe_def)
  then have "Spectrum_transpose r s = (None, s)"
    using True by (simp add: Spectrum_transpose_def)
  moreover have "set s = (\<lambda>h. entryOf (Harmonic_transpose r h)) ` set (Map_values s)"
    using stored_entries [OF wf] True by simp
  ultimately show ?thesis using wf by blast
next
  case False
  from valueOf_compare [OF safe r] False
  have v0: "0 < valueOf r" and v1: "valueOf r \<noteq> 1" and vgt: "1 < valueOf r \<longleftrightarrow> 1 < r"
    by simp_all
  let ?all = "getHarmonics s"
  have set_all: "set ?all = set (Map_values s)"
    by (simp add: getHarmonics_def)
  have dist: "distinct (map frequency ?all)"
    using wf by (simp add: getHarmonics_def distinct_map_sort_key frequencies_distinct_consistent
        wellFormed_consistent)
  have srt: "sorted_wrt (\<lambda>a b. frequency a \<le> frequency b) ?all"
    using sorted_getHarmonics [of s] by (simp add: sorted_map)
  have pos: "0 < frequency h" if "h \<in> set ?all" for h
  proof -
    from that set_all obtain e where "e \<in> set s" "snd e = h" by (auto simp: Map_values_def)
    with wellFormed_entries [OF wf] have "valid h" by blast
    then show ?thesis by (simp add: valid_def)
  qed
  have stored: "\<forall>h \<in> set hs. entryOf h \<in> set s" if "set hs = set ?all" for hs
    using that set_all stored_entries [OF wf] by blast
  have noclash: "\<forall>h \<in> set hs. \<forall>e \<in> set s. snd e \<notin> set hs \<longrightarrow> frequency (snd e) \<noteq> frequency h * r"
    if "set hs = set ?all" for hs
    using that set_all by (simp add: Map_values_def)
  have none_left: "{e \<in> set s. snd e \<notin> set hs} = {}" if "set hs = set ?all" for hs
    using that set_all by (auto simp: Map_values_def)
  show ?thesis
  proof (cases "1 < r")
    case True
    let ?hs = "rev ?all"
    have s: "set ?hs = set ?all" by simp
    have "sorted_wrt (\<lambda>x y. frequency y * r \<noteq> frequency x) ?all"
    proof (rule sorted_wrt_mono_rel [OF _ srt])
      fix x y assume "x \<in> set ?all" "y \<in> set ?all" "frequency x \<le> frequency y"
      moreover from this pos have "0 < frequency y" by simp
      then have "frequency y * 1 < frequency y * r" using True by (simp only: mult_less_cancel_left_pos)
      ultimately show "frequency y * r \<noteq> frequency x" by simp
    qed
    then have ord: "sorted_wrt (\<lambda>h h2. frequency h * r \<noteq> frequency h2) ?hs"
      by (simp add: sorted_wrt_rev)
    have d: "distinct (map frequency ?hs)" using dist by (simp add: rev_map [symmetric])
    from transposeEach_moves [OF wf r False d stored [OF s] noclash [OF s] ord]
    obtain s' where "transposeEach r ?hs s = (None, s')" and "wellFormed s'"
      and "set s' = {e \<in> set s. snd e \<notin> set ?hs} \<union> (\<lambda>h. entryOf (Harmonic_transpose r h)) ` set ?hs"
      by blast
    moreover have "Spectrum_transpose r s = transposeEach r ?hs s"
      using v0 v1 vgt True by (simp add: Spectrum_transpose_def Let_def)
    ultimately show ?thesis
      using none_left [OF s] set_all by auto
  next
    case False
    with \<open>r \<noteq> 1\<close> have lt: "r < 1" by simp
    let ?hs = "?all"
    have s: "set ?hs = set ?all" by simp
    have ord: "sorted_wrt (\<lambda>h h2. frequency h * r \<noteq> frequency h2) ?hs"
    proof (rule sorted_wrt_mono_rel [OF _ srt])
      fix x y assume "x \<in> set ?all" "y \<in> set ?all" "frequency x \<le> frequency y"
      moreover from this pos have "0 < frequency x" by simp
      then have "frequency x * r < frequency x * 1" using lt by (simp only: mult_less_cancel_left_pos)
      ultimately show "frequency x * r \<noteq> frequency y" by simp
    qed
    from transposeEach_moves [OF wf r \<open>r \<noteq> 1\<close> dist stored [OF s] noclash [OF s] ord]
    obtain s' where "transposeEach r ?hs s = (None, s')" and "wellFormed s'"
      and "set s' = {e \<in> set s. snd e \<notin> set ?hs} \<union> (\<lambda>h. entryOf (Harmonic_transpose r h)) ` set ?hs"
      by blast
    moreover have "Spectrum_transpose r s = transposeEach r ?hs s"
      using v0 v1 vgt False by (simp add: Spectrum_transpose_def Let_def)
    ultimately show ?thesis
      using none_left [OF s] set_all by auto
  qed
qed

lemma size_wellFormed:
  assumes "wellFormed s"
  shows "Map_size s = card (set (Map_values s))"
proof -
  have "distinct (map frequency (Map_values s))"
    using assms by (simp add: frequencies_distinct_consistent wellFormed_consistent)
  then have "distinct (Map_values s)" by (simp add: distinct_map)
  then have "card (set (Map_values s)) = length (Map_values s)" by (rule distinct_card)
  then show ?thesis by (simp add: Map_size_def Map_values_def)
qed

lemma values_of_entries:
  assumes "set s' = (\<lambda>h. entryOf (f h)) ` A"
  shows "set (Map_values s') = f ` A"
proof -
  have "set (Map_values s') = snd ` set s'" by (simp add: Map_values_def)
  also have "\<dots> = snd ` (\<lambda>h. entryOf (f h)) ` A" by (simp only: assms)
  also have "\<dots> = f ` A" by (simp add: image_image)
  finally show ?thesis .
qed

text \<open>
  Claim C1 (collision-safe transpose), as amended: for a well-formed spectrum and a ratio
  \<open>r > 0\<close> whose numerator and denominator are at most \<open>2^53\<close>, \<open>transpose(r)\<close>
  returns normally; the keys afterwards are exactly the keys of the frequencies multiplied
  by \<open>r\<close>, the size is unchanged, and the entry at \<open>r * f\<close> is the harmonic that was
  stored at \<open>f\<close>, with its amplitude and phase, whether \<open>r\<close> is above, below or equal
  to \<open>1\<close>.
\<close>

theorem collision_safe_transpose:
  assumes "wellFormed S" and "0 < r" and "safe r"
  shows "\<exists>S'. Spectrum_transpose r S = (None, S') \<and> wellFormed S'
    \<and> set (Map_keys S') = (\<lambda>h. toFraction (frequency h * r)) ` set (Map_values S)
    \<and> set (Map_keys S) = (\<lambda>h. toFraction (frequency h)) ` set (Map_values S)
    \<and> Map_size S' = Map_size S
    \<and> (\<forall>h \<in> set (Map_values S).
          Spectrum_get (AsFrequency (frequency h * r)) S' = Some (h\<lparr>frequency := frequency h * r\<rparr>))"
proof -
  from Spectrum_transpose_moves [OF assms]
  obtain S' where run: "Spectrum_transpose r S = (None, S')" and wf': "wellFormed S'"
    and set': "set S' = (\<lambda>h. entryOf (Harmonic_transpose r h)) ` set (Map_values S)"
    by blast
  have "set (Map_keys S') = fst ` set S'" by (simp add: Map_keys_def)
  also have "\<dots> = (\<lambda>h. toFraction (frequency h * r)) ` set (Map_values S)"
    unfolding set' by (simp add: image_image frequencyStr_def)
  finally have keys': "set (Map_keys S') = (\<lambda>h. toFraction (frequency h * r)) ` set (Map_values S)" .
  have "set (Map_keys S) = fst ` set S" by (simp add: Map_keys_def)
  also have "\<dots> = (\<lambda>h. toFraction (frequency h)) ` set (Map_values S)"
    by (subst stored_entries [OF assms(1)]) (simp add: image_image frequencyStr_def)
  finally have keys: "set (Map_keys S) = (\<lambda>h. toFraction (frequency h)) ` set (Map_values S)" .
  have "set (Map_values S') = Harmonic_transpose r ` set (Map_values S)"
    using set' by (rule values_of_entries)
  moreover have "inj_on (Harmonic_transpose r) (set (Map_values S))"
    using assms(2) transpose_inj [of r] by (simp add: inj_on_def inj_def)
  ultimately have "card (set (Map_values S')) = card (set (Map_values S))"
    by (simp add: card_image)
  then have size: "Map_size S' = Map_size S"
    using size_wellFormed [OF wf'] size_wellFormed [OF assms(1)] by simp
  have get: "\<forall>h \<in> set (Map_values S).
      Spectrum_get (AsFrequency (frequency h * r)) S' = Some (h\<lparr>frequency := frequency h * r\<rparr>)"
  proof
    fix h assume "h \<in> set (Map_values S)"
    with set' have "entryOf (Harmonic_transpose r h) \<in> set S'" by blast
    then have "(toFraction (frequency h * r), Harmonic_transpose r h) \<in> set S'"
      by (simp add: entryOf_def frequencyStr_def)
    then have "Map_get (toFraction (frequency h * r)) S' = Some (Harmonic_transpose r h)"
      using wellFormed_distinct [OF wf'] by (simp add: Map_get_Some_iff)
    then show "Spectrum_get (AsFrequency (frequency h * r)) S' = Some (h\<lparr>frequency := frequency h * r\<rparr>)"
      by (simp add: Harmonic_transpose_def)
  qed
  from run wf' keys' keys size get show ?thesis by blast
qed

lemma valueOf_three_halves: "valueOf (3 / 2) = 3 / 2"
  by code_simp

lemma valueOf_two: "valueOf 2 = 2"
  by code_simp

lemma valueOf_near_one: "valueOf (9007199254740993 / 9007199254740992) = 1"
  by code_simp

lemma toFraction_more:
  "toFraction (- 1) = ''-1''" "toFraction (9 / 2) = ''9/2''" "toFraction (9 / 4) = ''9/4''"
  by code_simp+

lemma safe_three_halves: "safe (3 / 2)"
  by code_simp

theorem collision_safe_transpose_witness:
  "wellFormed [(''1'', \<lparr>frequency = 1, amplitude = 1, phase = 0\<rparr>),
               (''3/2'', \<lparr>frequency = 3 / 2, amplitude = 1 / 2, phase = 1\<rparr>)]
   \<and> (0::rat) < 3 / 2 \<and> safe (3 / 2)
   \<and> (\<exists>S'. Spectrum_transpose (3 / 2)
          [(''1'', \<lparr>frequency = 1, amplitude = 1, phase = 0\<rparr>),
           (''3/2'', \<lparr>frequency = 3 / 2, amplitude = 1 / 2, phase = 1\<rparr>)] = (None, S')
        \<and> Map_size S' = 2
        \<and> Spectrum_get (AsFrequency (3 / 2)) S' = Some \<lparr>frequency = 3 / 2, amplitude = 1, phase = 0\<rparr>
        \<and> Spectrum_get (AsFrequency (9 / 4)) S' =
            Some \<lparr>frequency = 9 / 4, amplitude = 1 / 2, phase = 1\<rparr>)"
proof -
  let ?S = "[(''1'', \<lparr>frequency = 1, amplitude = 1, phase = 0\<rparr>),
             (''3/2'', \<lparr>frequency = 3 / 2, amplitude = 1 / 2, phase = 1\<rparr>)]"
  have wf: "wellFormed ?S"
    by (simp add: wellFormed_def consistent_def frequencyStr_def toFraction_one
        toFraction_three_halves valid_def Math_PI_def)
  have r: "(0::rat) < 3 / 2" by simp
  have s: "safe (3 / 2)" by (rule safe_three_halves)
  from collision_safe_transpose [OF wf r s]
  obtain S' where run: "Spectrum_transpose (3 / 2) ?S = (None, S')"
    and size: "Map_size S' = Map_size ?S"
    and get: "\<forall>h \<in> set (Map_values ?S).
      Spectrum_get (AsFrequency (frequency h * (3 / 2))) S' = Some (h\<lparr>frequency := frequency h * (3 / 2)\<rparr>)"
    by blast
  from size have "Map_size S' = 2" by (simp add: Map_size_def)
  moreover from get
  have "Spectrum_get (AsFrequency (3 / 2)) S' = Some \<lparr>frequency = 3 / 2, amplitude = 1, phase = 0\<rparr>"
    and "Spectrum_get (AsFrequency (9 / 4)) S' = Some \<lparr>frequency = 9 / 4, amplitude = 1 / 2, phase = 1\<rparr>"
    by (simp_all add: Map_values_def)
  ultimately show ?thesis using wf r s run by blast
qed

text \<open>
  The claim as stated fails in two ways. A spectrum can hold a harmonic with a
  non-positive frequency (\<open>transposeHarmonic\<close> accepts the ratio \<open>-1\<close>), and then
  \<open>transpose\<close> throws when it clones that harmonic. And \<open>transpose\<close> compares the
  number \<open>valueOf r\<close> with \<open>1\<close>: for \<open>r = (2^53 + 1) / 2^53\<close> that number is \<open>1\<close>
  and the spectrum is left as it was.
\<close>

theorem transpose_fails_or_skips:
  "snd (transposeHarmonic (AsFrequency 1) (- 1) (snd (Spectrum_add (AsFrequency 1) None None []))) =
     [(''-1'', \<lparr>frequency = - 1, amplitude = 1, phase = 0\<rparr>)]
   \<and> Spectrum_transpose 2 [(''-1'', \<lparr>frequency = - 1, amplitude = 1, phase = 0\<rparr>)] =
       (Some FrequencyMustBePositive, [(''-1'', \<lparr>frequency = - 1, amplitude = 1, phase = 0\<rparr>)])
   \<and> Spectrum_transpose (9007199254740993 / 9007199254740992)
        [(''1'', \<lparr>frequency = 1, amplitude = 1, phase = 0\<rparr>)] =
       (None, [(''1'', \<lparr>frequency = 1, amplitude = 1, phase = 0\<rparr>)])
   \<and> toFraction (1 * (9007199254740993 / 9007199254740992)) \<noteq> ''1''"
proof -
  let ?h = "\<lparr>frequency = 1, amplitude = 1, phase = 0\<rparr>"
  let ?n = "\<lparr>frequency = - 1, amplitude = 1, phase = 0\<rparr>"
  have v: "valid ?h" by (simp add: valid_def Math_PI_def)
  have "new_Harmonic 1 1 0 = Inr ?h"
    using v by (simp add: new_Harmonic_Inr_iff)
  then have add: "Spectrum_add (AsFrequency 1) None None [] = (None, [(''1'', ?h)])"
    by (simp add: addHarmonic_def Map_set_update frequencyStr_def toFraction_one)
  have "Harmonic_toTransposed (- 1) ?h = Inr ?n"
    using v by (simp add: Harmonic_toTransposed_def Harmonic_clone_valid Harmonic_transpose_def)
  then have c1: "snd (transposeHarmonic (AsFrequency 1) (- 1)
      (snd (Spectrum_add (AsFrequency 1) None None []))) = [(''-1'', ?n)]"
    unfolding add
    by (simp add: transposeHarmonic_def Map_get_def toFraction_one frequencyStr_def toFraction_more
        Map_set_update Map_delete_delete AList.delete_eq)
  have "Harmonic_toTransposed 2 ?n = Inl FrequencyMustBePositive"
    by (simp add: Harmonic_toTransposed_def Harmonic_clone_def new_Harmonic_def validate_def)
  then have "transposeHarmonic (AsHarmonic ?n) 2 [(''-1'', ?n)] =
      (Some FrequencyMustBePositive, [(''-1'', ?n)])"
    by (simp add: transposeHarmonic_def Map_get_def frequencyStr_def toFraction_more)
  then have c2: "Spectrum_transpose 2 [(''-1'', ?n)] = (Some FrequencyMustBePositive, [(''-1'', ?n)])"
    by (simp add: Spectrum_transpose_def valueOf_two getHarmonics_def Map_values_def)
  have c3: "Spectrum_transpose (9007199254740993 / 9007199254740992) [(''1'', ?h)] =
      (None, [(''1'', ?h)])"
    by (simp add: Spectrum_transpose_def valueOf_near_one)
  have "toFraction (9007199254740993 / 9007199254740992) \<noteq> toFraction 1"
    by (simp only: toFraction_eq_iff)
  then have c4: "toFraction (1 * (9007199254740993 / 9007199254740992)) \<noteq> ''1''"
    by (simp add: toFraction_one)
  from c1 c2 c3 c4 show ?thesis by (intro conjI)
qed

section \<open>Clone and the round trip\<close>

lemma update_fresh: "k \<notin> fst ` set al \<Longrightarrow> AList.update k v al = al @ [(k, v)]"
  by (induction al) auto

lemma cloneInto_append:
  assumes "wellFormed (s1 @ s2)"
  shows "cloneInto (map snd s2) s1 = Inr (s1 @ s2)"
  using assms
proof (induction s2 arbitrary: s1)
  case Nil
  then show ?case by simp
next
  case (Cons e s2)
  have m: "e \<in> set (s1 @ e # s2)" by simp
  from wellFormed_entries [OF Cons.prems m] have e: "e = entryOf (snd e)" and v: "valid (snd e)"
    by simp_all
  from wellFormed_distinct [OF Cons.prems] have "fst e \<notin> fst ` set s1" by auto
  then have "frequencyStr (snd e) \<notin> fst ` set s1" using e by (metis fst_entryOf)
  then have "addHarmonic (snd e) s1 = s1 @ [entryOf (snd e)]"
    by (simp add: addHarmonic_def Map_set_update update_fresh entryOf_def)
  with e have a: "addHarmonic (snd e) s1 = s1 @ [e]" by simp
  from Cons.prems have "wellFormed ((s1 @ [e]) @ s2)" by simp
  then have "cloneInto (map snd s2) (s1 @ [e]) = Inr ((s1 @ [e]) @ s2)" by (rule Cons.IH)
  with a v show ?case by (simp add: Harmonic_clone_valid)
qed

lemma Spectrum_clone_wellFormed: "wellFormed s \<Longrightarrow> Spectrum_clone s = Inr s"
  using cloneInto_append [of "[]" s] by (simp add: Spectrum_clone_def Map_values_def)

lemma safe_inverse:
  assumes "safe r" and "0 < r"
  shows "safe (1 / r)"
proof -
  obtain n d where q: "quotient_of r = (n, d)" by (cases "quotient_of r")
  then have d: "0 < d" and r: "r = of_int n / of_int d"
    by (simp_all add: quotient_of_denom_pos quotient_of_div)
  with assms(2) have n: "0 < n" by (simp add: zero_less_divide_iff)
  have "quotient_of (inverse r) = (d, n)"
    using q n by (simp add: rat_inverse_code)
  with assms(1) q n d show ?thesis by (simp add: safe_def inverse_eq_divide)
qed

text \<open>
  Claim C5 (transpose round trip), as amended: for a well-formed spectrum \<open>S\<close> and a ratio
  \<open>r > 0\<close> whose numerator and denominator are at most \<open>2^53\<close>,
  \<open>S.clone().transpose(r).transpose(1/r)\<close> returns normally and has the keys, and the
  entries, of \<open>S\<close>.
\<close>

theorem transpose_round_trip:
  assumes "wellFormed S" and "0 < r" and "safe r"
  shows "\<exists>C S1 S2. Spectrum_clone S = Inr C \<and> Spectrum_transpose r C = (None, S1)
    \<and> Spectrum_transpose (1 / r) S1 = (None, S2)
    \<and> set (Map_keys S2) = set (Map_keys S) \<and> set S2 = set S \<and> Map_size S2 = Map_size S"
proof -
  have c: "Spectrum_clone S = Inr S" using assms(1) by (rule Spectrum_clone_wellFormed)
  from Spectrum_transpose_moves [OF assms]
  obtain S1 where run1: "Spectrum_transpose r S = (None, S1)" and wf1: "wellFormed S1"
    and set1: "set S1 = (\<lambda>h. entryOf (Harmonic_transpose r h)) ` set (Map_values S)"
    by blast
  have inv: "0 < 1 / r" using assms(2) by simp
  from Spectrum_transpose_moves [OF wf1 inv safe_inverse [OF assms(3,2)]]
  obtain S2 where run2: "Spectrum_transpose (1 / r) S1 = (None, S2)" and wf2: "wellFormed S2"
    and set2: "set S2 = (\<lambda>h. entryOf (Harmonic_transpose (1 / r) h)) ` set (Map_values S1)"
    by blast
  have "set (Map_values S1) = Harmonic_transpose r ` set (Map_values S)"
    using set1 by (rule values_of_entries)
  with set2 have "set S2 = (\<lambda>h. entryOf (Harmonic_transpose (1 / r) (Harmonic_transpose r h))) ` set (Map_values S)"
    by (simp add: image_image)
  also have "\<dots> = entryOf ` set (Map_values S)"
    using assms(2) by (simp add: transpose_twice)
  also have "\<dots> = set S" using stored_entries [OF assms(1)] by simp
  finally have sets: "set S2 = set S" .
  then have keys: "set (Map_keys S2) = set (Map_keys S)" by (simp add: Map_keys_def)
  from sets have "set (Map_values S2) = set (Map_values S)" by (simp add: Map_values_def)
  then have size: "Map_size S2 = Map_size S"
    using size_wellFormed [OF wf2] size_wellFormed [OF assms(1)] by simp
  from c run1 run2 keys sets size show ?thesis by blast
qed

theorem transpose_round_trip_witness:
  "wellFormed [(''1'', \<lparr>frequency = 1, amplitude = 1, phase = 0\<rparr>),
               (''3/2'', \<lparr>frequency = 3 / 2, amplitude = 1 / 2, phase = 1\<rparr>)]
   \<and> (0::rat) < 3 / 2 \<and> safe (3 / 2)
   \<and> (\<exists>C S1 S2. Spectrum_clone [(''1'', \<lparr>frequency = 1, amplitude = 1, phase = 0\<rparr>),
               (''3/2'', \<lparr>frequency = 3 / 2, amplitude = 1 / 2, phase = 1\<rparr>)] = Inr C
        \<and> Spectrum_transpose (3 / 2) C = (None, S1)
        \<and> Spectrum_transpose (1 / (3 / 2)) S1 = (None, S2)
        \<and> set (Map_keys S2) = {''1'', ''3/2''})"
proof -
  let ?S = "[(''1'', \<lparr>frequency = 1, amplitude = 1, phase = 0\<rparr>),
             (''3/2'', \<lparr>frequency = 3 / 2, amplitude = 1 / 2, phase = 1\<rparr>)]"
  have wf: "wellFormed ?S"
    by (simp add: wellFormed_def consistent_def frequencyStr_def toFraction_one
        toFraction_three_halves valid_def Math_PI_def)
  have r: "(0::rat) < 3 / 2" by simp
  have s: "safe (3 / 2)" by (rule safe_three_halves)
  from transpose_round_trip [OF wf r s]
  obtain C S1 S2 where "Spectrum_clone ?S = Inr C" "Spectrum_transpose (3 / 2) C = (None, S1)"
    "Spectrum_transpose (1 / (3 / 2)) S1 = (None, S2)" "set (Map_keys S2) = set (Map_keys ?S)"
    by blast
  moreover have "set (Map_keys ?S) = {''1'', ''3/2''}" by (simp add: Map_keys_def)
  ultimately show ?thesis using wf r s by metis
qed

lemma valueOf_minus_one: "valueOf (- 1) = - 1"
  by code_simp

text \<open>The claim as stated fails for a negative ratio: \<open>transpose(-1)\<close> throws.\<close>

theorem transpose_negative_ratio:
  "Spectrum_clone [(''1'', \<lparr>frequency = 1, amplitude = 1, phase = 0\<rparr>)] =
      Inr [(''1'', \<lparr>frequency = 1, amplitude = 1, phase = 0\<rparr>)]
   \<and> Spectrum_transpose (- 1) [(''1'', \<lparr>frequency = 1, amplitude = 1, phase = 0\<rparr>)] =
      (Some RatioMustBeGreaterThanZero, [(''1'', \<lparr>frequency = 1, amplitude = 1, phase = 0\<rparr>)])"
proof -
  let ?h = "\<lparr>frequency = 1, amplitude = 1, phase = 0\<rparr>"
  have "valid ?h" by (simp add: valid_def Math_PI_def)
  then have "Spectrum_clone [(''1'', ?h)] = Inr [(''1'', ?h)]"
    by (simp add: Spectrum_clone_def Map_values_def Harmonic_clone_valid addHarmonic_def
        frequencyStr_def toFraction_one Map_set_update)
  moreover have "Spectrum_transpose (- 1) [(''1'', ?h)] = (Some RatioMustBeGreaterThanZero, [(''1'', ?h)])"
    by (simp add: Spectrum_transpose_def valueOf_minus_one)
  ultimately show ?thesis ..
qed

section \<open>Properties of IntervalSet: range\<close>

lemma numeratorLoop_keys:
  "fst ` set (numeratorLoop mn mx d maxN n m) =
     fst ` set m \<union> toFraction ` {q. \<exists>k. n \<le> k \<and> k \<le> maxN \<and> q = of_int k / of_int d \<and> mn \<le> q \<and> q \<le> mx}"
proof (induction mn mx d maxN n m rule: numeratorLoop.induct)
  case (1 mn mx d maxN n m)
  let ?Q = "\<lambda>n. {q. \<exists>k. n \<le> k \<and> k \<le> maxN \<and> q = of_int k / of_int d \<and> mn \<le> q \<and> q \<le> mx}"
  show ?case
  proof (cases "n \<le> maxN")
    case False
    then have e: "?Q n = {}" by auto
    have "numeratorLoop mn mx d maxN n m = m"
      using False by (subst numeratorLoop.simps) simp
    then show ?thesis by (simp only: e image_empty Un_empty_right)
  next
    case True
    let ?f = "of_int n / of_int d :: rat"
    let ?m' = "if ?f \<ge> mn \<and> ?f \<le> mx then IntervalSet_add ?f m else m"
    have step: "numeratorLoop mn mx d maxN n m = numeratorLoop mn mx d maxN (n + 1) ?m'"
      using True by (subst numeratorLoop.simps) (simp add: Let_def)
    have ih: "fst ` set (numeratorLoop mn mx d maxN (n + 1) ?m') = fst ` set ?m' \<union> toFraction ` ?Q (n + 1)"
      using "1.IH" [OF True refl] by simp
    have split: "?Q n = (if mn \<le> ?f \<and> ?f \<le> mx then {?f} else {}) \<union> ?Q (n + 1)"
    proof (rule set_eqI)
      fix q
      have "(\<exists>k. n \<le> k \<and> k \<le> maxN \<and> q = of_int k / of_int d \<and> mn \<le> q \<and> q \<le> mx) \<longleftrightarrow>
          (q = ?f \<and> mn \<le> q \<and> q \<le> mx) \<or>
          (\<exists>k. n + 1 \<le> k \<and> k \<le> maxN \<and> q = of_int k / of_int d \<and> mn \<le> q \<and> q \<le> mx)"
        (is "?L \<longleftrightarrow> ?A \<or> ?B")
      proof
        assume ?L
        then obtain k where k: "n \<le> k" "k \<le> maxN" "q = of_int k / of_int d" "mn \<le> q" "q \<le> mx"
          by blast
        show "?A \<or> ?B"
        proof (cases "k = n")
          case True
          with k show ?thesis by simp
        next
          case False
          with k have "n + 1 \<le> k" by simp
          with k show ?thesis by blast
        qed
      next
        assume "?A \<or> ?B"
        then show ?L
        proof
          assume ?A
          with True show ?L by blast
        next
          assume ?B
          then obtain k where "n + 1 \<le> k" "k \<le> maxN" "q = of_int k / of_int d" "mn \<le> q" "q \<le> mx"
            by blast
          moreover from this have "n \<le> k" by simp
          ultimately show ?L by blast
        qed
      qed
      then show "q \<in> ?Q n \<longleftrightarrow> q \<in> (if mn \<le> ?f \<and> ?f \<le> mx then {?f} else {}) \<union> ?Q (n + 1)"
        by (simp split: if_splits) blast
    qed
    have "fst ` set ?m' = fst ` set m \<union> toFraction ` (if mn \<le> ?f \<and> ?f \<le> mx then {?f} else {})"
      by (simp add: keys_IntervalSet_add)
    with step ih split show ?thesis
      by (simp only: image_Un Un_assoc)
  qed
qed

lemma denominatorLoop_keys:
  "fst ` set (denominatorLoop mn mx maxD d m) =
     fst ` set m \<union> toFraction ` {q. \<exists>e k. d \<le> e \<and> e \<le> maxD
        \<and> max 1 \<lceil>fmul (valueOf mn) (of_int e)\<rceil> \<le> k \<and> k \<le> \<lfloor>fmul (valueOf mx) (of_int e)\<rfloor>
        \<and> q = of_int k / of_int e \<and> mn \<le> q \<and> q \<le> mx}"
proof (induction mn mx maxD d m rule: denominatorLoop.induct)
  case (1 mn mx maxD d m)
  let ?lo = "\<lambda>e. max 1 \<lceil>fmul (valueOf mn) (of_int e)\<rceil>"
  let ?hi = "\<lambda>e. \<lfloor>fmul (valueOf mx) (of_int e)\<rfloor>"
  let ?N = "\<lambda>e. {q. \<exists>k. ?lo e \<le> k \<and> k \<le> ?hi e \<and> q = of_int k / of_int e \<and> mn \<le> q \<and> q \<le> mx}"
  let ?Q = "\<lambda>d. {q. \<exists>e k. d \<le> e \<and> e \<le> maxD \<and> ?lo e \<le> k \<and> k \<le> ?hi e
        \<and> q = of_int k / of_int e \<and> mn \<le> q \<and> q \<le> mx}"
  show ?case
  proof (cases "d \<le> maxD")
    case False
    then have e: "?Q d = {}" by auto
    have "denominatorLoop mn mx maxD d m = m"
      using False by (subst denominatorLoop.simps) simp
    then show ?thesis by (simp only: e image_empty Un_empty_right)
  next
    case True
    let ?m' = "numeratorLoop mn mx d (?hi d) (?lo d) m"
    have step: "denominatorLoop mn mx maxD d m = denominatorLoop mn mx maxD (d + 1) ?m'"
      using True by (subst denominatorLoop.simps) (simp add: Let_def)
    have ih: "fst ` set (denominatorLoop mn mx maxD (d + 1) ?m') = fst ` set ?m' \<union> toFraction ` ?Q (d + 1)"
      using "1.IH" [OF True refl refl] by simp
    have inner: "fst ` set ?m' = fst ` set m \<union> toFraction ` ?N d"
      by (rule numeratorLoop_keys)
    have split: "?Q d = ?N d \<union> ?Q (d + 1)"
    proof (rule set_eqI)
      fix q
      show "q \<in> ?Q d \<longleftrightarrow> q \<in> ?N d \<union> ?Q (d + 1)"
      proof
        assume "q \<in> ?Q d"
        then obtain e k where k: "d \<le> e" "e \<le> maxD" "?lo e \<le> k" "k \<le> ?hi e"
          "q = of_int k / of_int e" "mn \<le> q" "q \<le> mx"
          by blast
        show "q \<in> ?N d \<union> ?Q (d + 1)"
        proof (cases "e = d")
          case True
          with k have "q \<in> ?N d" by blast
          then show ?thesis ..
        next
          case False
          with k have "d + 1 \<le> e" by simp
          with k have "q \<in> ?Q (d + 1)" by blast
          then show ?thesis ..
        qed
      next
        assume "q \<in> ?N d \<union> ?Q (d + 1)"
        then show "q \<in> ?Q d"
        proof
          assume "q \<in> ?N d"
          with True show ?thesis by blast
        next
          assume "q \<in> ?Q (d + 1)"
          then obtain e k where k: "d + 1 \<le> e" "e \<le> maxD" "?lo e \<le> k" "k \<le> ?hi e"
            "q = of_int k / of_int e" "mn \<le> q" "q \<le> mx"
            by blast
          moreover from k have "d \<le> e" by simp
          ultimately show ?thesis by blast
        qed
      qed
    qed
    show ?thesis
      unfolding step ih inner split by (simp only: image_Un Un_assoc)
  qed
qed

text \<open>The members of a generated range: the fractions \<open>k / e\<close> inside the bounds whose
  numerator lies between the two numerator bounds that the loop computes for \<open>e\<close>.\<close>

lemma range_members:
  assumes "IntervalSet_range mn mx maxD = Inr m"
  shows "IntervalSet_has q m \<longleftrightarrow>
    (\<exists>e k. 1 \<le> e \<and> e \<le> maxD
        \<and> max 1 \<lceil>fmul (valueOf mn) (of_int e)\<rceil> \<le> k \<and> k \<le> \<lfloor>fmul (valueOf mx) (of_int e)\<rfloor>
        \<and> q = of_int k / of_int e \<and> mn \<le> q \<and> q \<le> mx)"
proof -
  from assms have m: "m = denominatorLoop mn mx maxD 1 []"
    by (simp add: IntervalSet_range_def split: if_splits)
  have "IntervalSet_has q m \<longleftrightarrow> toFraction q \<in> fst ` set m"
    by (rule IntervalSet_has_iff)
  also have "\<dots> \<longleftrightarrow> toFraction q \<in> toFraction ` {q. \<exists>e k. 1 \<le> e \<and> e \<le> maxD
        \<and> max 1 \<lceil>fmul (valueOf mn) (of_int e)\<rceil> \<le> k \<and> k \<le> \<lfloor>fmul (valueOf mx) (of_int e)\<rfloor>
        \<and> q = of_int k / of_int e \<and> mn \<le> q \<and> q \<le> mx}"
    unfolding m denominatorLoop_keys by simp
  also have "\<dots> \<longleftrightarrow> q \<in> {q. \<exists>e k. 1 \<le> e \<and> e \<le> maxD
        \<and> max 1 \<lceil>fmul (valueOf mn) (of_int e)\<rceil> \<le> k \<and> k \<le> \<lfloor>fmul (valueOf mx) (of_int e)\<rfloor>
        \<and> q = of_int k / of_int e \<and> mn \<le> q \<and> q \<le> mx}"
    by (rule inj_image_mem_iff) (simp add: inj_def)
  finally show ?thesis by simp
qed

text \<open>Every member of a generated range is a fraction \<open>k / e\<close> with \<open>1 \<le> e \<le> maxDenominator\<close>
  and \<open>k \<ge> 1\<close> that lies inside the bounds.\<close>

lemma range_sound:
  assumes "IntervalSet_range mn mx maxD = Inr m" and "IntervalSet_has q m"
  shows "\<exists>e k. 1 \<le> e \<and> e \<le> maxD \<and> 1 \<le> k \<and> q = of_int k / of_int e \<and> mn \<le> q \<and> q \<le> mx"
proof -
  from range_members [OF assms(1), of q] assms(2)
  obtain e k where "1 \<le> e" "e \<le> maxD" "max 1 \<lceil>fmul (valueOf mn) (of_int e)\<rceil> \<le> k"
    "q = of_int k / of_int e" "mn \<le> q" "q \<le> mx"
    by blast
  moreover from this have "1 \<le> k" by simp
  ultimately show ?thesis by blast
qed

lemma range_keys:
  assumes "IntervalSet_range mn mx maxD = Inr m"
  shows "\<exists>Q. fst ` set m = toFraction ` Q"
proof -
  from assms have m: "m = denominatorLoop mn mx maxD 1 []"
    by (simp add: IntervalSet_range_def split: if_splits)
  have "fst ` set m = toFraction ` {q. \<exists>e k. 1 \<le> e \<and> e \<le> maxD
        \<and> max 1 \<lceil>fmul (valueOf mn) (of_int e)\<rceil> \<le> k \<and> k \<le> \<lfloor>fmul (valueOf mx) (of_int e)\<rfloor>
        \<and> q = of_int k / of_int e \<and> mn \<le> q \<and> q \<le> mx}"
    unfolding m using denominatorLoop_keys [of mn mx maxD 1 "[]"] by simp
  then show ?thesis ..
qed

lemma range_errors:
  "(\<exists>m. IntervalSet_range mn mx maxD = Inr m) \<longleftrightarrow> 1 \<le> maxD \<and> mn \<le> mx"
  by (auto simp: IntervalSet_range_def)

lemma fmul_15_11: "\<lfloor>fmul (valueOf (15 / 11)) 11\<rfloor> = 14"
  by code_simp

lemma no_numerator_for_15_11:
  assumes "1 \<le> e" and "e \<le> 11" and "k \<le> \<lfloor>fmul (valueOf (15 / 11)) (of_int e)\<rfloor>"
    and "of_int k / of_int e = (15 / 11 :: rat)"
  shows False
proof -
  from assms(1,4) have "(of_int k :: rat) * 11 = 15 * of_int e" by (simp add: field_simps)
  then have "(of_int (k * 11) :: rat) = of_int (15 * e)" by simp
  then have eq: "k * 11 = 15 * e" by (simp only: of_int_eq_iff)
  then have "(11::int) dvd 15 * e" by (metis dvd_triv_right)
  moreover have "gcd (11::int) 15 = 1" by code_simp
  then have "coprime (11::int) 15" by (simp only: coprime_iff_gcd_eq_1)
  ultimately have "11 dvd e" by (simp add: coprime_dvd_mult_right_iff)
  then obtain c where c: "e = 11 * c" by (rule dvdE)
  with assms(1,2) have "c = 1" by simp
  with c have e11: "e = 11" by simp
  with eq have "k = 15" by simp
  with assms(3) e11 fmul_15_11 show False by simp
qed

text \<open>The two examples of the claim.\<close>

lemma range_example_1_3_1:
  "IntervalSet_range 1 3 1 = Inr [(''1'', 1), (''2'', 2), (''3'', 3)]"
  by code_simp

lemma range_example_toStrings: "toStrings [(''1'', 1), (''2'', 2), (''3'', 3)] = [''1'', ''2'', ''3'']"
  by code_simp

lemma range_example_1_2_1: "IntervalSet_range 1 2 1 = Inr [(''1'', 1), (''2'', 2)]"
  by code_simp

text \<open>
  Claim C3 (range exactness): \<open>range(min, max, maxDenominator)\<close> holds every fraction
  \<open>n/d\<close> with \<open>1 \<le> d \<le> maxDenominator\<close>, \<open>n \<ge> 1\<close> and \<open>min \<le> n/d \<le> max\<close>. The
  numerator bounds are computed on numbers: for \<open>min = max = 15/11\<close> and the denominator
  \<open>11\<close> the product \<open>valueOf(15/11) * 11\<close> is rounded below \<open>15\<close>, its floor is \<open>14\<close>,
  and the fraction \<open>15/11\<close> is never tried: \<open>range(15/11, 15/11, 11)\<close> is empty and
  \<open>range(1, 15/11, 11)\<close> does not hold \<open>15/11\<close>.
\<close>

theorem range_drops_bound:
  "IntervalSet_range (15 / 11) (15 / 11) 11 = Inr []
   \<and> (\<exists>m. IntervalSet_range 1 (15 / 11) 11 = Inr m \<and> \<not> IntervalSet_has (15 / 11) m)"
proof -
  obtain m where m: "IntervalSet_range (15 / 11) (15 / 11) 11 = Inr m"
    using range_errors [of "15 / 11" "15 / 11" 11] by auto
  have none: "toFraction q \<notin> fst ` set m" for q
  proof
    assume "toFraction q \<in> fst ` set m"
    then have "IntervalSet_has q m" by (simp add: IntervalSet_has_iff)
    with range_members [OF m, of q]
    obtain e k where e: "1 \<le> e" "e \<le> 11" and k: "k \<le> \<lfloor>fmul (valueOf (15 / 11)) (of_int e)\<rfloor>"
      and q: "q = of_int k / of_int e" "15 / 11 \<le> q" "q \<le> 15 / 11"
      by blast
    from q have "of_int k / of_int e = (15 / 11 :: rat)" by simp
    with e k show False by (rule no_numerator_for_15_11)
  qed
  from range_keys [OF m] obtain Q where Q: "fst ` set m = toFraction ` Q" ..
  have "Q = {}"
  proof (rule ccontr)
    assume "Q \<noteq> {}"
    then obtain q where "q \<in> Q" by blast
    then have "toFraction q \<in> fst ` set m" unfolding Q by (rule imageI)
    with none show False by simp
  qed
  with Q have "fst ` set m = {}" by simp
  with m have c1: "IntervalSet_range (15 / 11) (15 / 11) 11 = Inr []" by simp
  obtain m' where m': "IntervalSet_range 1 (15 / 11) 11 = Inr m'"
    using range_errors [of 1 "15 / 11" 11] by auto
  have "\<not> IntervalSet_has (15 / 11) m'"
  proof
    assume "IntervalSet_has (15 / 11) m'"
    with range_members [OF m', of "15 / 11"]
    obtain e k where e: "1 \<le> e" "e \<le> 11" and k: "k \<le> \<lfloor>fmul (valueOf (15 / 11)) (of_int e)\<rfloor>"
      and q: "15 / 11 = (of_int k / of_int e :: rat)"
      by blast
    from q have "of_int k / of_int e = (15 / 11 :: rat)" by simp
    with e k show False by (rule no_numerator_for_15_11)
  qed
  with m' c1 show ?thesis by blast
qed

section \<open>The key invariants are kept by the operations\<close>

text \<open>
  The hypotheses \<open>consistent\<close> and \<open>keyed\<close> of the theorems above hold of the empty
  containers and are kept by \<open>add\<close>, \<open>remove\<close> and \<open>delete\<close> (shown before); they are
  also kept by \<open>transposeHarmonic\<close> and \<open>transpose\<close>, whatever the ratio and whether or
  not the call throws, and they hold of every set that \<open>range\<close> returns.
\<close>

lemma consistent_transposeHarmonic:
  "consistent s \<Longrightarrow> consistent (snd (transposeHarmonic x r s))"
  by (auto simp: transposeHarmonic_def consistent_iff distinct_Map_set distinct_Map_delete
      set_Map_set set_Map_delete Let_def split: option.splits sum.splits)

lemma consistent_transposeEach:
  "consistent s \<Longrightarrow> consistent (snd (transposeEach r hs s))"
proof (induction hs arbitrary: s)
  case Nil
  then show ?case by simp
next
  case (Cons h hs)
  obtain e s' where t: "transposeHarmonic (AsHarmonic h) r s = (e, s')"
    by (cases "transposeHarmonic (AsHarmonic h) r s")
  with consistent_transposeHarmonic [OF Cons.prems, of "AsHarmonic h" r] have c: "consistent s'"
    by simp
  show ?case
  proof (cases e)
    case None
    with t c Cons.IH show ?thesis by simp
  next
    case (Some a)
    with t c show ?thesis by simp
  qed
qed

lemma consistent_transpose:
  "consistent s \<Longrightarrow> consistent (snd (Spectrum_transpose r s))"
  by (simp add: Spectrum_transpose_def Let_def consistent_transposeEach)

lemma keyed_numeratorLoop:
  "keyed m \<Longrightarrow> keyed (numeratorLoop mn mx d maxN n m)"
proof (induction mn mx d maxN n m rule: numeratorLoop.induct)
  case (1 mn mx d maxN n m)
  show ?case
  proof (cases "n \<le> maxN")
    case False
    then have "numeratorLoop mn mx d maxN n m = m"
      by (subst numeratorLoop.simps) simp
    with "1.prems" show ?thesis by simp
  next
    case True
    let ?f = "of_int n / of_int d :: rat"
    let ?m' = "if ?f \<ge> mn \<and> ?f \<le> mx then IntervalSet_add ?f m else m"
    have step: "numeratorLoop mn mx d maxN n m = numeratorLoop mn mx d maxN (n + 1) ?m'"
      using True by (subst numeratorLoop.simps) (simp add: Let_def)
    have "keyed ?m'" using "1.prems" by (simp add: keyed_add)
    then have "keyed (numeratorLoop mn mx d maxN (n + 1) ?m')"
      using "1.IH" [OF True refl] by simp
    with step show ?thesis by simp
  qed
qed

lemma keyed_denominatorLoop:
  "keyed m \<Longrightarrow> keyed (denominatorLoop mn mx maxD d m)"
proof (induction mn mx maxD d m rule: denominatorLoop.induct)
  case (1 mn mx maxD d m)
  show ?case
  proof (cases "d \<le> maxD")
    case False
    then have "denominatorLoop mn mx maxD d m = m"
      by (subst denominatorLoop.simps) simp
    with "1.prems" show ?thesis by simp
  next
    case True
    let ?lo = "max 1 \<lceil>fmul (valueOf mn) (of_int d)\<rceil>"
    let ?hi = "\<lfloor>fmul (valueOf mx) (of_int d)\<rfloor>"
    let ?m' = "numeratorLoop mn mx d ?hi ?lo m"
    have step: "denominatorLoop mn mx maxD d m = denominatorLoop mn mx maxD (d + 1) ?m'"
      using True by (subst denominatorLoop.simps) (simp add: Let_def)
    have "keyed ?m'" using "1.prems" by (rule keyed_numeratorLoop)
    then have "keyed (denominatorLoop mn mx maxD (d + 1) ?m')"
      using "1.IH" [OF True refl refl] by simp
    with step show ?thesis by simp
  qed
qed

lemma keyed_range: "IntervalSet_range mn mx maxD = Inr m \<Longrightarrow> keyed m"
  by (auto simp: IntervalSet_range_def keyed_denominatorLoop keyed_empty split: if_splits)

section \<open>Properties of IntervalSet: densify\<close>



















lemma widePairs_Cons:
  "widePairs g (l # r # rest) =
     (if valueOf (r / l) > g then (l, r) # widePairs g (r # rest) else widePairs g (r # rest))"
  by (simp add: widePairs_def)



lemma widePairs_empty_iff:
  "0 \<notin> set (butlast xs) \<Longrightarrow> widePairs g xs = [] \<longleftrightarrow> gapsWithin g xs"
proof (induction g xs rule: gapsWithin.induct)
  case (1 g left right rest)
  then show ?case by (auto simp: widePairs_Cons)
qed (simp_all add: widePairs_def)











lemma gaps_1_2_4: "gapsWithin 2 [1, 2, 4]"
  by (simp add: valueOf_two)







end
